theory Spec2Isabelle
  imports Main "HOL-Library.Multiset"
begin

section \<open>Roster model\<close>

text \<open>
  The dataclass \<^verbatim>\<open>Player\<close> (name, rank, position). Ranks are Python integers
  (\<^verbatim>\<open>int(row["Rank"])\<close>), hence unbounded and possibly negative; the position is
  whatever upper-cased text the sheet held. Text is ASCII: a string is a list of
  characters below 128. A sheet cell is a missing value (what \<^verbatim>\<open>pd.isna\<close> accepts),
  a boolean, an integer or text; floating-point cells are outside the model.
\<close>

datatype cell = Missing | BoolV bool | IntV int | StrV string

record player =
  name :: cell
  rank :: int
  position :: string

text \<open>
  A team is the dictionary \<^verbatim>\<open>{"F": [], "D": [], "total": 0}\<close>: the two role lists in
  insertion order and the running total. The key \<^verbatim>\<open>"total"\<close> is the field \<open>total'\<close>.
\<close>

record team =
  F :: "player list"
  D :: "player list"
  total' :: int

datatype error =
    ValueError string
  | KeyError
  | AttributeError
  | TypeError

definition FORWARDS_TARGET :: nat where
  "FORWARDS_TARGET = 6"

definition DEFENCE_TARGET :: nat where
  "DEFENCE_TARGET = 4"

definition ITERATIONS :: nat where
  "ITERATIONS = 7000"

section \<open>Helpers\<close>

subsection \<open>Text operations of the eligibility test\<close>

text \<open>
  \<^verbatim>\<open>str.strip()\<close> removes leading and trailing whitespace; among ASCII characters
  Python counts tab, line feed, vertical tab, form feed, carriage return, the four
  separators 0x1C to 0x1F and the space. \<^verbatim>\<open>str.upper()\<close> maps a to z onto A to Z and
  leaves every other ASCII character alone.
\<close>

definition is_space :: "char \<Rightarrow> bool" where
  "is_space c = (c \<in> set [CHR 0x09, CHR 0x0A, CHR 0x0B, CHR 0x0C, CHR 0x0D,
                            CHR 0x1C, CHR 0x1D, CHR 0x1E, CHR 0x1F, CHR 0x20])"

definition strip :: "string \<Rightarrow> string" where
  "strip s = rev (dropWhile is_space (rev (dropWhile is_space s)))"

definition upper_char :: "char \<Rightarrow> char" where
  "upper_char c =
     (let n = (of_char c :: nat) in if 97 \<le> n \<and> n \<le> 122 then char_of (n - 32) else c)"

definition upper :: "string \<Rightarrow> string" where
  "upper s = map upper_char s"

definition digit_char :: "nat \<Rightarrow> char" where
  "digit_char d = ''0123456789'' ! d"

fun str_nat :: "nat \<Rightarrow> string" where
  "str_nat n = (if n < 10 then [digit_char n] else str_nat (n div 10) @ [digit_char (n mod 10)])"

declare str_nat.simps [simp del]

definition str_int :: "int \<Rightarrow> string" where
  "str_int i = (if i < 0 then CHR ''-'' # str_nat (nat (- i)) else str_nat (nat i))"

text \<open>\<^verbatim>\<open>str(value)\<close> on a cell.\<close>

fun py_str :: "cell \<Rightarrow> string" where
  "py_str Missing = ''nan''"
| "py_str (BoolV b) = (if b then ''True'' else ''False'')"
| "py_str (IntV i) = str_int i"
| "py_str (StrV s) = s"

definition isna :: "cell \<Rightarrow> bool" where
  "isna v = (v = Missing)"

definition is_selected :: "cell \<Rightarrow> bool" where
  "is_selected v =
     (if isna v then False
      else upper (strip (py_str v)) \<in> set [''TRUE'', ''1'', ''YES'', ''Y''])"

subsection \<open>Teams\<close>

definition empty_team :: team where
  "empty_team = \<lparr>F = [], D = [], total' = 0\<rparr>"

definition can_add :: "team \<Rightarrow> string \<Rightarrow> bool" where
  "can_add t pos =
     (if pos = ''F'' then length (F t) < FORWARDS_TARGET
      else if pos = ''D'' then length (D t) < DEFENCE_TARGET
      else False)"

text \<open>
  \<^verbatim>\<open>team[pos].append(player); team["total"] += player.rank\<close>. Indexing the dictionary
  with a key it does not hold raises KeyError, and the integer under \<^verbatim>\<open>"total"\<close> has no
  \<^verbatim>\<open>append\<close>.
\<close>

definition assign_player :: "team \<Rightarrow> player \<Rightarrow> string \<Rightarrow> error + team" where
  "assign_player t p pos =
     (if pos = ''F'' then Inr (t\<lparr>F := F t @ [p], total' := total' t + rank p\<rparr>)
      else if pos = ''D'' then Inr (t\<lparr>D := D t @ [p], total' := total' t + rank p\<rparr>)
      else if pos = ''total'' then Inl AttributeError
      else Inl KeyError)"

text \<open>A sequence of assignments to one team, stopping at the first error.\<close>

fun assign_all :: "team \<Rightarrow> (player \<times> string) list \<Rightarrow> error + team" where
  "assign_all t [] = Inr t"
| "assign_all t ((p, pos) # rest) =
     (case assign_player t p pos of
        Inl e \<Rightarrow> Inl e
      | Inr t' \<Rightarrow> assign_all t' rest)"

definition members :: "team \<Rightarrow> player list" where
  "members t = F t @ D t"

definition rank_sum :: "team \<Rightarrow> int" where
  "rank_sum t = sum_list (map rank (members t))"

section \<open>Core optimizer\<close>

text \<open>
  Inside one attempt the two dictionaries \<^verbatim>\<open>team_a\<close> and \<^verbatim>\<open>team_b\<close> are two separate
  objects, and an option \<^verbatim>\<open>(team, pos)\<close> holds a reference to one of them. The pair of
  teams is the state, a reference is a \<open>team_ref\<close>.
\<close>

datatype team_ref = TeamA | TeamB

type_synonym teams = "team \<times> team"

type_synonym move = "team_ref \<times> string"

fun deref :: "teams \<Rightarrow> team_ref \<Rightarrow> team" where
  "deref (team_a, team_b) TeamA = team_a"
| "deref (team_a, team_b) TeamB = team_b"

text \<open>The body of \<^verbatim>\<open>for team in [team_a, team_b]\<close> for one team.\<close>

definition team_options :: "teams \<Rightarrow> player \<Rightarrow> team_ref \<Rightarrow> move list" where
  "team_options st p tm =
     (if position p = ''F'' then
        (if can_add (deref st tm) ''F'' then [(tm, ''F'')] else [])
      else if position p = ''D'' then
        (if can_add (deref st tm) ''D'' then [(tm, ''D'')] else [])
      else
        (if can_add (deref st tm) ''F'' then [(tm, ''F'')] else []) @
        (if can_add (deref st tm) ''D'' then [(tm, ''D'')] else []))"

definition candidate_options :: "teams \<Rightarrow> player \<Rightarrow> move list" where
  "candidate_options st p = team_options st p TeamA @ team_options st p TeamB"

definition fallback_options :: "move list" where
  "fallback_options = [(TeamA, ''F''), (TeamB, ''F''), (TeamA, ''D''), (TeamB, ''D'')]"

definition options_for :: "teams \<Rightarrow> player \<Rightarrow> move list" where
  "options_for st p =
     (let options = candidate_options st p
      in if options = [] then fallback_options else options)"

text \<open>\<^verbatim>\<open>best_diff\<close> starts as \<^verbatim>\<open>float("inf")\<close> and holds integers afterwards.\<close>

datatype bound = Inf | Fin int

fun less_bound :: "int \<Rightarrow> bound \<Rightarrow> bool" where
  "less_bound d Inf = True"
| "less_bound d (Fin b) = (d < b)"

text \<open>
  The projected gap of one trial. The test \<^verbatim>\<open>team == team_a\<close> compares two
  dictionaries by value, not by identity: it also succeeds for \<^verbatim>\<open>team_b\<close> when the two
  teams hold equal players and totals.
\<close>

definition trial_diff :: "teams \<Rightarrow> player \<Rightarrow> team_ref \<Rightarrow> int" where
  "trial_diff st p tm =
     (let proj_a = total' (fst st);
          proj_b = total' (snd st);
          proj_a' = (if deref st tm = fst st then proj_a + rank p else proj_a);
          proj_b' = (if deref st tm = fst st then proj_b else proj_b + rank p)
      in \<bar>proj_a' - proj_b'\<bar>)"

fun best_move_loop ::
  "teams \<Rightarrow> player \<Rightarrow> move list \<Rightarrow> move option \<times> bound \<Rightarrow> move option \<times> bound" where
  "best_move_loop st p [] acc = acc"
| "best_move_loop st p ((tm, pos) # rest) (best_move, best_diff) =
     (let diff = trial_diff st p tm
      in if less_bound diff best_diff
         then best_move_loop st p rest (Some (tm, pos), Fin diff)
         else best_move_loop st p rest (best_move, best_diff))"

text \<open>\<^verbatim>\<open>assign_player(best_move[0], player, best_move[1])\<close> on the referenced team.\<close>

fun commit :: "teams \<Rightarrow> player \<Rightarrow> move \<Rightarrow> error + teams" where
  "commit (team_a, team_b) p (TeamA, pos) =
     (case assign_player team_a p pos of Inl e \<Rightarrow> Inl e | Inr t \<Rightarrow> Inr (t, team_b))"
| "commit (team_a, team_b) p (TeamB, pos) =
     (case assign_player team_b p pos of Inl e \<Rightarrow> Inl e | Inr t \<Rightarrow> Inr (team_a, t))"

text \<open>One pass of \<^verbatim>\<open>for player in players_list\<close>; subscripting \<^verbatim>\<open>None\<close> is a TypeError.\<close>

definition choose_move :: "teams \<Rightarrow> player \<Rightarrow> move list \<Rightarrow> move option" where
  "choose_move st p options = fst (best_move_loop st p options (None, Inf))"

definition place_player :: "teams \<Rightarrow> player \<Rightarrow> error + teams" where
  "place_player st p =
     (case choose_move st p (options_for st p) of
        None \<Rightarrow> Inl TypeError
      | Some m \<Rightarrow> commit st p m)"

fun build_from :: "teams \<Rightarrow> player list \<Rightarrow> error + teams" where
  "build_from st [] = Inr st"
| "build_from st (p # ps) =
     (case place_player st p of Inl e \<Rightarrow> Inl e | Inr st' \<Rightarrow> build_from st' ps)"

text \<open>
  \<^verbatim>\<open>random.shuffle(players_list)\<close> is the one source of randomness; the draw is the
  parameter \<open>draw\<close>, the order the list is left in.
\<close>

definition attempt_build :: "(player list \<Rightarrow> player list) \<Rightarrow> player list \<Rightarrow> error + teams" where
  "attempt_build draw players_list =
     build_from (empty_team, empty_team) (draw players_list)"

section \<open>Run full build\<close>

record row =
  Selected :: cell
  Name :: cell
  Rank :: cell
  Position :: cell

record sheet =
  columns :: "string list"
  rows :: "row list"

definition required_columns :: "string list" where
  "required_columns = [''Selected'', ''Name'', ''Rank'', ''Position'']"

text \<open>
  \<^verbatim>\<open>int(value)\<close> on text, as CPython's string-to-integer conversion does it for ASCII
  text: skip leading C whitespace (tab, line feed, vertical tab, form feed, carriage
  return, space; not the separators 0x1C to 0x1F that \<^verbatim>\<open>strip\<close> removes), read one
  optional sign, refuse a leading underscore, scan decimal digits with single underscores
  between them, refuse more than 4300 digits, require at least one digit, skip trailing
  whitespace and require the end of the text. A refused literal is quoted in the message
  with \<^verbatim>\<open>repr\<close>, cut to 200 characters.
\<close>

definition is_c_space :: "char \<Rightarrow> bool" where
  "is_c_space c = (c \<in> set [CHR 0x09, CHR 0x0A, CHR 0x0B, CHR 0x0C, CHR 0x0D, CHR 0x20])"

definition is_digit :: "char \<Rightarrow> bool" where
  "is_digit c = (let n = (of_char c :: nat) in 48 \<le> n \<and> n \<le> 57)"

definition hex_char :: "nat \<Rightarrow> char" where
  "hex_char d = ''0123456789abcdef'' ! d"

definition repr_char :: "char \<Rightarrow> char \<Rightarrow> string" where
  "repr_char q c =
     (let n = (of_char c :: nat)
      in if c = CHR 0x5C \<or> c = q then [CHR 0x5C, c]
         else if c = CHR 0x09 then [CHR 0x5C, CHR ''t'']
         else if c = CHR 0x0A then [CHR 0x5C, CHR ''n'']
         else if c = CHR 0x0D then [CHR 0x5C, CHR ''r'']
         else if n < 32 \<or> n = 127 then [CHR 0x5C, CHR ''x'', hex_char (n div 16), hex_char (n mod 16)]
         else [c])"

definition py_repr :: "string \<Rightarrow> string" where
  "py_repr s =
     (let q = (if CHR 0x27 \<in> set s \<and> CHR 0x22 \<notin> set s then CHR 0x22 else CHR 0x27)
      in q # concat (map (repr_char q) s) @ [q])"

definition invalid_literal :: "string \<Rightarrow> error" where
  "invalid_literal s =
     ValueError (''invalid literal for int() with base 10: '' @ take 200 (py_repr s))"

definition too_many_digits :: "nat \<Rightarrow> error" where
  "too_many_digits d =
     ValueError (''Exceeds the limit (4300 digits) for integer string conversion: value has '' @
       str_nat d @ '' digits; use sys.set_int_max_str_digits() to increase the limit'')"

text \<open>
  The scan of the digits: the value read, the number of digits, and the text left at the
  first character that is neither a digit nor an underscore.
\<close>

datatype scan_result = BadUnderscore | Scanned nat nat string

fun scan_digits :: "string \<Rightarrow> nat \<Rightarrow> nat \<Rightarrow> bool \<Rightarrow> scan_result" where
  "scan_digits [] v d prev_underscore =
     (if prev_underscore then BadUnderscore else Scanned v d [])"
| "scan_digits (c # cs) v d prev_underscore =
     (if is_digit c then scan_digits cs (10 * v + (of_char c - 48)) (Suc d) False
      else if c = CHR ''_'' then
        (if prev_underscore then BadUnderscore else scan_digits cs v d True)
      else if prev_underscore then BadUnderscore
      else Scanned v d (c # cs))"

definition int_of_text :: "string \<Rightarrow> error + int" where
  "int_of_text s =
     (let t = dropWhile is_c_space s;
          negative = (t \<noteq> [] \<and> hd t = CHR ''-'');
          signed = (t \<noteq> [] \<and> (hd t = CHR ''-'' \<or> hd t = CHR ''+''));
          body = (if signed then tl t else t)
      in if body \<noteq> [] \<and> hd body = CHR ''_'' then Inl (invalid_literal s)
         else case scan_digits body 0 0 False of
                BadUnderscore \<Rightarrow> Inl (invalid_literal s)
              | Scanned v d rest \<Rightarrow>
                  if 4300 < d then Inl (too_many_digits d)
                  else if d = 0 then Inl (invalid_literal s)
                  else if dropWhile is_c_space rest \<noteq> [] then Inl (invalid_literal s)
                  else Inr (if negative then - int v else int v))"

fun py_int :: "cell \<Rightarrow> error + int" where
  "py_int Missing = Inl (ValueError ''cannot convert float NaN to integer'')"
| "py_int (BoolV b) = Inr (if b then 1 else 0)"
| "py_int (IntV i) = Inr i"
| "py_int (StrV s) = int_of_text s"

text \<open>\<^verbatim>\<open>row["Position"].strip().upper()\<close>: only text has \<^verbatim>\<open>strip\<close>.\<close>

fun position_of :: "cell \<Rightarrow> error + string" where
  "position_of (StrV s) = Inr (upper (strip s))"
| "position_of v = Inl AttributeError"

text \<open>The loop over \<^verbatim>\<open>df.iterrows()\<close>, with the list \<^verbatim>\<open>players\<close> built so far.\<close>

fun read_players :: "row list \<Rightarrow> player list \<Rightarrow> error + player list" where
  "read_players [] players = Inr players"
| "read_players (r # rs) players =
     (if \<not> is_selected (Selected r) then read_players rs players
      else case py_int (Rank r) of
             Inl e \<Rightarrow> Inl e
           | Inr rk \<Rightarrow>
               (case position_of (Position r) of
                  Inl e \<Rightarrow> Inl e
                | Inr ps \<Rightarrow>
                    read_players rs
                      (players @ [\<lparr>name = Name r, rank = rk, position = ps\<rparr>])))"

text \<open>
  The search loop. Its state is \<^verbatim>\<open>best\<close>, \<^verbatim>\<open>best_diff\<close> and the number of attempts
  run so far, which is also the index of the next draw of \<^verbatim>\<open>random.shuffle\<close>; the
  first argument counts the iterations of \<^verbatim>\<open>range(ITERATIONS)\<close> still to come.
\<close>

type_synonym search_state = "teams option \<times> bound \<times> nat"

fun record_attempt :: "search_state \<Rightarrow> teams \<Rightarrow> search_state" where
  "record_attempt (best, best_diff, n) (a, b) =
     (let diff = \<bar>total' a - total' b\<bar>
      in if less_bound diff best_diff
         then (Some (a, b), Fin diff, Suc n)
         else (best, best_diff, Suc n))"

fun search_loop ::
  "nat \<Rightarrow> (nat \<Rightarrow> player list \<Rightarrow> player list) \<Rightarrow> player list \<Rightarrow> search_state
     \<Rightarrow> error + search_state" where
  "search_loop 0 draws players st = Inr st"
| "search_loop (Suc k) draws players (best, best_diff, n) =
     (case attempt_build (draws n) players of
        Inl e \<Rightarrow> Inl e
      | Inr ab \<Rightarrow>
          (let st' = record_attempt (best, best_diff, n) ab
           in if fst (snd st') = Fin 0 then Inr st'
              else search_loop k draws players st'))"

definition search_init :: search_state where
  "search_init = (None, Inf, 0)"

definition build_teams ::
  "(nat \<Rightarrow> player list \<Rightarrow> player list) \<Rightarrow> sheet \<Rightarrow> error + (team \<times> team \<times> bound)" where
  "build_teams draws df =
     (if \<not> set required_columns \<subseteq> set (columns df)
      then Inl (ValueError ''Excel must contain Selected, Name, Rank, Position'')
      else case read_players (rows df) [] of
             Inl e \<Rightarrow> Inl e
           | Inr players \<Rightarrow>
               if length players < 10
               then Inl (ValueError ''Not enough selected players'')
               else (case search_loop ITERATIONS draws players search_init of
                       Inl e \<Rightarrow> Inl e
                     | Inr (best, best_diff, n) \<Rightarrow>
                         (case best of
                            None \<Rightarrow> Inl TypeError
                          | Some (a, b) \<Rightarrow> Inr (a, b, best_diff))))"

section \<open>Notions used by the properties\<close>

text \<open>The players two teams hold, with multiplicity.\<close>

definition all_members :: "teams \<Rightarrow> player multiset" where
  "all_members st = mset (members (fst st)) + mset (members (snd st))"

definition within_targets :: "team \<Rightarrow> bool" where
  "within_targets t = (length (F t) \<le> FORWARDS_TARGET \<and> length (D t) \<le> DEFENCE_TARGET)"

text \<open>The fallback fires for a player when the enumeration leaves \<^verbatim>\<open>options\<close> empty.\<close>

definition fallback_fires :: "teams \<Rightarrow> player \<Rightarrow> bool" where
  "fallback_fires st p = (candidate_options st p = [])"

text \<open>A run of the constructor over a player order during which the fallback never fires.\<close>

fun fallback_free :: "teams \<Rightarrow> player list \<Rightarrow> bool" where
  "fallback_free st [] = True"
| "fallback_free st (p # ps) =
     (\<not> fallback_fires st p \<and>
      (case place_player st p of Inl e \<Rightarrow> False | Inr st' \<Rightarrow> fallback_free st' ps))"

text \<open>
  The gap the specification projects for a trial: \<open>|total_A' - total_B'|\<close> where only
  the evaluated team's total is incremented by the player's rank.
\<close>

fun projected_gap :: "teams \<Rightarrow> player \<Rightarrow> team_ref \<Rightarrow> int" where
  "projected_gap (team_a, team_b) p TeamA = \<bar>(total' team_a + rank p) - total' team_b\<bar>"
| "projected_gap (team_a, team_b) p TeamB = \<bar>total' team_a - (total' team_b + rank p)\<bar>"

text \<open>What committing a player to a role collection of a team leaves in that team.\<close>

definition with_player :: "team \<Rightarrow> player \<Rightarrow> string \<Rightarrow> team" where
  "with_player t p pos =
     (if pos = ''F'' then \<lparr>F = F t @ [p], D = D t, total' = total' t + rank p\<rparr>
      else \<lparr>F = F t, D = D t @ [p], total' = total' t + rank p\<rparr>)"

fun other_team :: "team_ref \<Rightarrow> team_ref" where
  "other_team TeamA = TeamB"
| "other_team TeamB = TeamA"

text \<open>
  Position \<open>k\<close> of a list of options is its first minimum for a cost \<open>g\<close>: no option
  costs less, and every option before it costs strictly more.
\<close>

definition first_minimum :: "(move \<Rightarrow> int) \<Rightarrow> move list \<Rightarrow> nat \<Rightarrow> bool" where
  "first_minimum g opts k =
     (k < length opts \<and>
      (\<forall>m \<in> set opts. g (opts ! k) \<le> g m) \<and>
      (\<forall>m \<in> set (take k opts). g (opts ! k) < g m))"

text \<open>The \<^verbatim>\<open>diff\<close> the driver computes for the attempt made with one draw.\<close>

definition attempt_diff :: "(player list \<Rightarrow> player list) \<Rightarrow> player list \<Rightarrow> int option" where
  "attempt_diff draw players =
     (case attempt_build draw players of
        Inl e \<Rightarrow> None
      | Inr (a, b) \<Rightarrow> Some \<bar>total' a - total' b\<bar>)"

text \<open>
  The specification's eligibility rule: the trimmed string form of the value equals one
  of TRUE, 1, YES, Y when case is ignored.
\<close>

definition lower_char :: "char \<Rightarrow> char" where
  "lower_char c =
     (let n = (of_char c :: nat) in if 65 \<le> n \<and> n \<le> 90 then char_of (n + 32) else c)"

definition same_ignoring_case :: "string \<Rightarrow> string \<Rightarrow> bool" where
  "same_ignoring_case s t = (map lower_char s = map lower_char t)"

definition truthy :: "cell \<Rightarrow> bool" where
  "truthy v =
     (same_ignoring_case (strip (py_str v)) ''TRUE'' \<or>
      same_ignoring_case (strip (py_str v)) ''1'' \<or>
      same_ignoring_case (strip (py_str v)) ''YES'' \<or>
      same_ignoring_case (strip (py_str v)) ''Y'')"

text \<open>Sample data: a player whose position is none of the expected ones, and rosters.\<close>

definition goalie :: player where
  "goalie = \<lparr>name = StrV ''Sam'', rank = 3, position = ''GOALIE''\<rparr>"

definition skater :: "string \<Rightarrow> int \<Rightarrow> player" where
  "skater pos r = \<lparr>name = Missing, rank = r, position = pos\<rparr>"

definition sheet_row :: "cell \<Rightarrow> string \<Rightarrow> int \<Rightarrow> row" where
  "sheet_row sel pos r = \<lparr>Selected = sel, Name = Missing, Rank = IntV r, Position = StrV pos\<rparr>"

text \<open>
  Fourteen selected Forwards, two more than the twelve Forward slots of the two teams.
\<close>

definition overflow_ranks :: "int list" where
  "overflow_ranks = [1, 1, 1, 1, 1, 1, 1, 1, 1, 1, 1, 1, 2, 2]"

definition overflow_sheet :: sheet where
  "overflow_sheet =
     \<lparr>columns = [''Selected'', ''Name'', ''Rank'', ''Position''],
      rows = map (sheet_row (StrV ''Yes'') '' f'') overflow_ranks\<rparr>"

definition overflow_players :: "player list" where
  "overflow_players = map (skater ''F'') overflow_ranks"

text \<open>A sheet with four rows, three of them selected.\<close>

definition short_sheet :: sheet where
  "short_sheet =
     \<lparr>columns = [''Name'', ''Position'', ''Rank'', ''Selected'', ''Notes''],
      rows = [sheet_row (StrV ''yes'') ''F'' 3, sheet_row (StrV ''no'') ''D'' 2,
              sheet_row (BoolV True) ''d'' 1, sheet_row (IntV 1) ''flex'' 4]\<rparr>"

definition six_forwards :: team where
  "six_forwards = \<lparr>F = map (skater ''F'') [1, 1, 1, 1, 1, 1], D = [], total' = 6\<rparr>"

text \<open>Ten players of mixed roles, three of them Flex.\<close>

definition mixed_players :: "player list" where
  "mixed_players =
     [skater ''F'' 5, skater ''D'' 4, skater ''FLEX'' 3, skater ''F'' 2, skater ''D'' 2,
      skater ''F'' 1, skater ''FLEX'' 4, skater ''D'' 3, skater ''F'' 2, skater ''FLEX'' 1]"

definition flex_player :: player where
  "flex_player = skater ''FLEX'' 3"

definition overflow_team :: team where
  "overflow_team = \<lparr>F = map (skater ''F'') [1, 1, 1, 1, 1, 1, 2], D = [], total' = 8\<rparr>"

section \<open>Properties\<close>

subsection \<open>Running total\<close>

lemma rank_sum_empty_team: "rank_sum empty_team = total' empty_team"
  by (simp add: rank_sum_def members_def empty_team_def)

lemma assign_player_rank_sum:
  assumes "assign_player t p pos = Inr t'"
  shows "rank_sum t' - total' t' = rank_sum t - total' t"
  using assms
  by (auto simp: assign_player_def rank_sum_def members_def split: if_splits)

lemma assign_all_rank_sum:
  "assign_all t xs = Inr t' \<Longrightarrow> rank_sum t' - total' t' = rank_sum t - total' t"
proof (induction xs arbitrary: t)
  case Nil
  then show ?case by simp
next
  case (Cons x xs)
  obtain p pos where x: "x = (p, pos)" by (cases x)
  from Cons.prems x obtain t1 where
    s1: "assign_player t p pos = Inr t1" and s2: "assign_all t1 xs = Inr t'"
    by (auto split: sum.splits)
  from Cons.IH [OF s2] assign_player_rank_sum [OF s1] show ?case by simp
qed

lemma assign_all_defined:
  "\<forall>x \<in> set xs. snd x = ''F'' \<or> snd x = ''D'' \<Longrightarrow> \<exists>t'. assign_all t xs = Inr t'"
proof (induction xs arbitrary: t)
  case Nil
  then show ?case by simp
next
  case (Cons x xs)
  obtain p pos where x: "x = (p, pos)" by (cases x)
  with Cons.prems have "pos = ''F'' \<or> pos = ''D''" by simp
  then obtain t1 where s1: "assign_player t p pos = Inr t1"
    by (auto simp: assign_player_def)
  from Cons.prems have "\<forall>x \<in> set xs. snd x = ''F'' \<or> snd x = ''D''" by simp
  from Cons.IH [OF this] obtain t' where "assign_all t1 xs = Inr t'" by blast
  with s1 x show ?case by simp
qed

text \<open>
  C4. Starting from the empty team, whenever a sequence of assignments succeeds the
  running total equals the sum of the ranks of the players held in the Forward and Defence
  collections; and every sequence of assignments into those two collections succeeds.
\<close>

theorem total_is_rank_sum:
  "(assign_all empty_team xs = Inr t \<longrightarrow> total' t = rank_sum t) \<and>
   ((\<forall>x \<in> set xs. snd x = ''F'' \<or> snd x = ''D'') \<longrightarrow>
      (\<exists>t'. assign_all empty_team xs = Inr t' \<and> total' t' = rank_sum t'))"
proof (intro conjI impI)
  assume "assign_all empty_team xs = Inr t"
  from assign_all_rank_sum [OF this] rank_sum_empty_team
  show "total' t = rank_sum t" by simp
next
  assume "\<forall>x \<in> set xs. snd x = ''F'' \<or> snd x = ''D''"
  from assign_all_defined [OF this] obtain t' where r: "assign_all empty_team xs = Inr t'"
    by blast
  from assign_all_rank_sum [OF r] rank_sum_empty_team have "total' t' = rank_sum t'"
    by simp
  with r show "\<exists>t'. assign_all empty_team xs = Inr t' \<and> total' t' = rank_sum t'"
    by blast
qed

theorem total_is_rank_sum_witness:
  "assign_all empty_team [(skater ''F'' 5, ''F''), (skater ''X'' (- 2), ''D'')] =
     Inr \<lparr>F = [skater ''F'' 5], D = [skater ''X'' (- 2)], total' = 3\<rparr> \<and>
   total' \<lparr>F = [skater ''F'' 5], D = [skater ''X'' (- 2)], total' = 3\<rparr> =
     rank_sum \<lparr>F = [skater ''F'' 5], D = [skater ''X'' (- 2)], total' = 3\<rparr>"
proof -
  have run: "assign_all empty_team [(skater ''F'' 5, ''F''), (skater ''X'' (- 2), ''D'')] =
     Inr \<lparr>F = [skater ''F'' 5], D = [skater ''X'' (- 2)], total' = 3\<rparr>"
    by (simp add: assign_player_def empty_team_def skater_def)
  with total_is_rank_sum
    [of "[(skater ''F'' 5, ''F''), (skater ''X'' (- 2), ''D'')]"
        "\<lparr>F = [skater ''F'' 5], D = [skater ''X'' (- 2)], total' = 3\<rparr>"]
  show ?thesis by blast
qed

subsection \<open>The projected gap and the selection loop\<close>

lemma trial_diff_projected_gap: "trial_diff st p tm = projected_gap st p tm"
proof (cases st)
  case (Pair a b)
  show ?thesis
  proof (cases tm)
    case TeamA
    with Pair show ?thesis by (simp add: trial_diff_def)
  next
    case TeamB
    with Pair show ?thesis by (auto simp: trial_diff_def Let_def)
  qed
qed


lemma first_minimum_single: "first_minimum g [m] 0"
  by (simp add: first_minimum_def)

lemma first_minimum_replace:
  assumes "first_minimum g seen k" and "g m < g (seen ! k)"
  shows "first_minimum g (seen @ [m]) (length seen)"
  using assms by (fastforce simp: first_minimum_def)

lemma first_minimum_keep:
  assumes "first_minimum g seen k" and "g (seen ! k) \<le> g m"
  shows "first_minimum g (seen @ [m]) k"
  using assms by (auto simp: first_minimum_def nth_append)

lemma best_move_loop_inv:
  assumes "(seen = [] \<and> acc = (None, Inf)) \<or>
           (\<exists>k. first_minimum (\<lambda>m. trial_diff st p (fst m)) seen k \<and>
                 acc = (Some (seen ! k), Fin (trial_diff st p (fst (seen ! k)))))"
      and "seen @ rest \<noteq> []"
  shows "\<exists>k. first_minimum (\<lambda>m. trial_diff st p (fst m)) (seen @ rest) k \<and>
             best_move_loop st p rest acc =
               (Some ((seen @ rest) ! k), Fin (trial_diff st p (fst ((seen @ rest) ! k))))"
  using assms
proof (induction rest arbitrary: seen acc)
  case Nil
  then show ?case by auto
next
  case (Cons m rest)
  let ?g = "\<lambda>m. trial_diff st p (fst m)"
  obtain tm pos where m: "m = (tm, pos)" by (cases m)
  obtain bm bd where acc: "acc = (bm, bd)" by (cases acc)
  let ?acc' = "if less_bound (?g m) bd then (Some m, Fin (?g m)) else acc"
  have step: "best_move_loop st p (m # rest) acc = best_move_loop st p rest ?acc'"
    by (simp add: m acc Let_def)
  have "\<exists>k. first_minimum ?g (seen @ [m]) k \<and>
             ?acc' = (Some ((seen @ [m]) ! k), Fin (?g ((seen @ [m]) ! k)))"
    using Cons.prems(1)
  proof
    assume "seen = [] \<and> acc = (None, Inf)"
    with acc have "seen = []" and "bd = Inf" by simp_all
    then show ?thesis using first_minimum_single [of ?g m] by auto
  next
    assume "\<exists>k. first_minimum ?g seen k \<and> acc = (Some (seen ! k), Fin (?g (seen ! k)))"
    then obtain k where fm: "first_minimum ?g seen k"
      and a: "acc = (Some (seen ! k), Fin (?g (seen ! k)))" by blast
    from fm have kl: "k < length seen" by (simp add: first_minimum_def)
    from a acc have bd: "bd = Fin (?g (seen ! k))" by simp
    show ?thesis
    proof (cases "less_bound (?g m) bd")
      case True
      with bd have "?g m < ?g (seen ! k)" by simp
      from first_minimum_replace [OF fm this] True show ?thesis by auto
    next
      case False
      with bd have "?g (seen ! k) \<le> ?g m" by simp
      from first_minimum_keep [OF fm this] False a kl show ?thesis
        by (auto simp: nth_append)
    qed
  qed
  then have inv': "(seen @ [m] = [] \<and> ?acc' = (None, Inf)) \<or>
       (\<exists>k. first_minimum ?g (seen @ [m]) k \<and>
             ?acc' = (Some ((seen @ [m]) ! k), Fin (?g ((seen @ [m]) ! k))))"
    by blast
  have "(seen @ [m]) @ rest \<noteq> []" by simp
  from Cons.IH [OF inv' this] step show ?case by simp
qed

lemma choose_move_first_minimum:
  assumes "opts \<noteq> []"
  shows "\<exists>k. first_minimum (\<lambda>m. projected_gap st p (fst m)) opts k \<and>
             choose_move st p opts = Some (opts ! k)"
proof -
  have "([] = [] \<and> (None, Inf) = (None :: move option, Inf)) \<or>
        (\<exists>k. first_minimum (\<lambda>m. trial_diff st p (fst m)) [] k \<and>
           (None, Inf) = (Some ([] ! k), Fin (trial_diff st p (fst ([] ! k)))))"
    by simp
  from best_move_loop_inv [OF this, of opts] assms
  show ?thesis by (auto simp: choose_move_def trial_diff_projected_gap)
qed

lemma options_for_nonempty: "options_for st p \<noteq> []"
  by (simp add: options_for_def Let_def fallback_options_def)

lemma options_for_roles: "m \<in> set (options_for st p) \<Longrightarrow> snd m = ''F'' \<or> snd m = ''D''"
  by (auto simp: options_for_def Let_def fallback_options_def candidate_options_def
      team_options_def split: if_splits)

lemma commit_defined:
  assumes "pos = ''F'' \<or> pos = ''D''"
  shows "\<exists>st'. commit st p (tm, pos) = Inr st' \<and> all_members st' = all_members st + {#p#}"
proof (cases st)
  case (Pair a b)
  show ?thesis
  proof (cases tm)
    case TeamA
    with Pair assms show ?thesis
      by (auto simp: assign_player_def all_members_def members_def)
  next
    case TeamB
    with Pair assms show ?thesis
      by (auto simp: assign_player_def all_members_def members_def)
  qed
qed

lemma place_player_defined:
  "\<exists>st'. place_player st p = Inr st' \<and> all_members st' = all_members st + {#p#}"
proof -
  from choose_move_first_minimum [OF options_for_nonempty, of st p st p]
  obtain k where k: "k < length (options_for st p)"
    and c: "choose_move st p (options_for st p) = Some (options_for st p ! k)"
    by (auto simp: first_minimum_def)
  obtain tm pos where m: "options_for st p ! k = (tm, pos)" by (cases "options_for st p ! k")
  from k have "options_for st p ! k \<in> set (options_for st p)" by simp
  from options_for_roles [OF this] m have "pos = ''F'' \<or> pos = ''D''" by simp
  from commit_defined [OF this, of st p tm] c m show ?thesis
    by (simp add: place_player_def)
qed

lemma build_from_defined:
  "\<exists>st'. build_from st ps = Inr st' \<and> all_members st' = all_members st + mset ps"
proof (induction ps arbitrary: st)
  case Nil
  then show ?case by simp
next
  case (Cons p ps)
  from place_player_defined [of st p] obtain st1 where
    s1: "place_player st p = Inr st1" and m1: "all_members st1 = all_members st + {#p#}"
    by blast
  from Cons.IH [of st1] obtain st' where
    s2: "build_from st1 ps = Inr st'" and m2: "all_members st' = all_members st1 + mset ps"
    by blast
  from s1 s2 m1 m2 show ?case by simp
qed

lemma attempt_build_defined:
  "\<exists>a b. attempt_build draw ps = Inr (a, b) \<and>
         mset (members a) + mset (members b) = mset (draw ps)"
proof -
  from build_from_defined [of "(empty_team, empty_team)" "draw ps"]
  obtain st' where r: "build_from (empty_team, empty_team) (draw ps) = Inr st'"
    and m: "all_members st' = all_members (empty_team, empty_team) + mset (draw ps)"
    by blast
  obtain a b where st': "st' = (a, b)" by (cases st')
  from r m st' show ?thesis
    by (auto simp: attempt_build_def all_members_def members_def empty_team_def)
qed

subsection \<open>Reading the sheet\<close>

lemma read_players_length:
  "read_players rs acc = Inr ps \<Longrightarrow>
     length ps = length acc + length (filter (\<lambda>r. is_selected (Selected r)) rs)"
proof (induction rs arbitrary: acc)
  case Nil
  then show ?case by simp
next
  case (Cons r rs)
  show ?case
  proof (cases "is_selected (Selected r)")
    case False
    with Cons show ?thesis by simp
  next
    case True
    with Cons.prems obtain rk pos where
      "read_players rs (acc @ [\<lparr>name = Name r, rank = rk, position = pos\<rparr>]) = Inr ps"
      by (auto split: sum.splits)
    from Cons.IH [OF this] True show ?thesis by simp
  qed
qed

subsection \<open>What the search returns\<close>

lemma record_attempt_cases:
  "record_attempt (best, bd, n) (a, b) =
     (if less_bound \<bar>total' a - total' b\<bar> bd
      then (Some (a, b), Fin \<bar>total' a - total' b\<bar>, Suc n)
      else (best, bd, Suc n))"
  by (simp add: Let_def)

lemma search_loop_result:
  "\<exists>best' bd' n'. search_loop k draws ps (best, bd, n) = Inr (best', bd', n') \<and>
      ((best', bd') = (best, bd) \<or>
       (\<exists>i a b. n \<le> i \<and> i < n + k \<and> attempt_build (draws i) ps = Inr (a, b) \<and>
                best' = Some (a, b) \<and> bd' = Fin \<bar>total' a - total' b\<bar>))"
proof (induction k arbitrary: best bd n)
  case 0
  then show ?case by simp
next
  case (Suc k)
  from attempt_build_defined [of "draws n" ps] obtain a b where
    ab: "attempt_build (draws n) ps = Inr (a, b)" by blast
  let ?d = "\<bar>total' a - total' b\<bar>"
  show ?case
  proof (cases "less_bound ?d bd")
    case True
    show ?thesis
    proof (cases "?d = 0")
      case z: True
      with True ab show ?thesis by (auto simp: Let_def)
    next
      case nz: False
      from Suc.IH [of "Some (a, b)" "Fin ?d" "Suc n"] obtain best' bd' n' where
        r: "search_loop k draws ps (Some (a, b), Fin ?d, Suc n) = Inr (best', bd', n')"
        and c: "(best', bd') = (Some (a, b), Fin ?d) \<or>
          (\<exists>i a' b'. Suc n \<le> i \<and> i < Suc n + k \<and> attempt_build (draws i) ps = Inr (a', b') \<and>
                best' = Some (a', b') \<and> bd' = Fin \<bar>total' a' - total' b'\<bar>)"
        by blast
      from True nz ab r have
        "search_loop (Suc k) draws ps (best, bd, n) = Inr (best', bd', n')"
        by (simp add: Let_def)
      moreover from c have "\<exists>i a' b'. n \<le> i \<and> i < n + Suc k \<and>
           attempt_build (draws i) ps = Inr (a', b') \<and>
           best' = Some (a', b') \<and> bd' = Fin \<bar>total' a' - total' b'\<bar>"
      proof
        assume "(best', bd') = (Some (a, b), Fin ?d)"
        with ab show ?thesis by (intro exI [of _ n] exI [of _ a] exI [of _ b]) simp
      next
        assume "\<exists>i a' b'. Suc n \<le> i \<and> i < Suc n + k \<and>
            attempt_build (draws i) ps = Inr (a', b') \<and>
            best' = Some (a', b') \<and> bd' = Fin \<bar>total' a' - total' b'\<bar>"
        then obtain i a' b' where "Suc n \<le> i" "i < Suc n + k"
          "attempt_build (draws i) ps = Inr (a', b')"
          "best' = Some (a', b')" "bd' = Fin \<bar>total' a' - total' b'\<bar>" by blast
        then show ?thesis
          by (intro exI [of _ i] exI [of _ a'] exI [of _ b']) simp
      qed
      ultimately show ?thesis by blast
    qed
  next
    case False
    show ?thesis
    proof (cases "bd = Fin 0")
      case True
      with False ab show ?thesis by (simp add: Let_def)
    next
      case nz: False
      from Suc.IH [of best bd "Suc n"] obtain best' bd' n' where
        r: "search_loop k draws ps (best, bd, Suc n) = Inr (best', bd', n')"
        and c: "(best', bd') = (best, bd) \<or>
          (\<exists>i a' b'. Suc n \<le> i \<and> i < Suc n + k \<and> attempt_build (draws i) ps = Inr (a', b') \<and>
                best' = Some (a', b') \<and> bd' = Fin \<bar>total' a' - total' b'\<bar>)"
        by blast
      from False nz ab r have
        "search_loop (Suc k) draws ps (best, bd, n) = Inr (best', bd', n')"
        by (simp add: Let_def)
      moreover from c have "(best', bd') = (best, bd) \<or> (\<exists>i a' b'. n \<le> i \<and> i < n + Suc k \<and>
           attempt_build (draws i) ps = Inr (a', b') \<and>
           best' = Some (a', b') \<and> bd' = Fin \<bar>total' a' - total' b'\<bar>)"
      proof
        assume "(best', bd') = (best, bd)"
        then show ?thesis by blast
      next
        assume "\<exists>i a' b'. Suc n \<le> i \<and> i < Suc n + k \<and>
            attempt_build (draws i) ps = Inr (a', b') \<and>
            best' = Some (a', b') \<and> bd' = Fin \<bar>total' a' - total' b'\<bar>"
        then obtain i a' b' where "Suc n \<le> i" "i < Suc n + k"
          "attempt_build (draws i) ps = Inr (a', b')"
          "best' = Some (a', b')" "bd' = Fin \<bar>total' a' - total' b'\<bar>" by blast
        then have "\<exists>i a' b'. n \<le> i \<and> i < n + Suc k \<and>
           attempt_build (draws i) ps = Inr (a', b') \<and>
           best' = Some (a', b') \<and> bd' = Fin \<bar>total' a' - total' b'\<bar>"
          by (intro exI [of _ i] exI [of _ a'] exI [of _ b']) simp
        then show ?thesis by blast
      qed
      ultimately show ?thesis by blast
    qed
  qed
qed

lemma search_loop_from_init:
  assumes "0 < k"
  shows "\<exists>i a b n'. i < k \<and> attempt_build (draws i) ps = Inr (a, b) \<and>
           search_loop k draws ps search_init = Inr (Some (a, b), Fin \<bar>total' a - total' b\<bar>, n')"
proof -
  from assms obtain k' where k: "k = Suc k'" by (cases k) auto
  from attempt_build_defined [of "draws 0" ps] obtain a b where
    ab: "attempt_build (draws 0) ps = Inr (a, b)" by blast
  let ?d = "\<bar>total' a - total' b\<bar>"
  show ?thesis
  proof (cases "?d = 0")
    case True
    with ab k show ?thesis
      by (intro exI [of _ 0] exI [of _ a] exI [of _ b] exI [of _ "Suc 0"])
         (simp add: search_init_def Let_def)
  next
    case False
    from search_loop_result [of k' draws ps "Some (a, b)" "Fin ?d" "Suc 0"]
    obtain best' bd' n' where
      r: "search_loop k' draws ps (Some (a, b), Fin ?d, Suc 0) = Inr (best', bd', n')"
      and c: "(best', bd') = (Some (a, b), Fin ?d) \<or>
        (\<exists>i a' b'. Suc 0 \<le> i \<and> i < Suc 0 + k' \<and> attempt_build (draws i) ps = Inr (a', b') \<and>
              best' = Some (a', b') \<and> bd' = Fin \<bar>total' a' - total' b'\<bar>)"
      by blast
    from False ab r k have
      s: "search_loop k draws ps search_init = Inr (best', bd', n')"
      by (simp add: search_init_def Let_def)
    from c show ?thesis
    proof
      assume "(best', bd') = (Some (a, b), Fin ?d)"
      with s ab k show ?thesis
        by (intro exI [of _ 0] exI [of _ a] exI [of _ b] exI [of _ n']) simp
    next
      assume "\<exists>i a' b'. Suc 0 \<le> i \<and> i < Suc 0 + k' \<and>
          attempt_build (draws i) ps = Inr (a', b') \<and>
          best' = Some (a', b') \<and> bd' = Fin \<bar>total' a' - total' b'\<bar>"
      then obtain i a' b' where "i < Suc 0 + k'"
        "attempt_build (draws i) ps = Inr (a', b')"
        "best' = Some (a', b')" "bd' = Fin \<bar>total' a' - total' b'\<bar>" by blast
      with s k show ?thesis
        by (intro exI [of _ i] exI [of _ a'] exI [of _ b'] exI [of _ n']) simp
    qed
  qed
qed

lemma build_teams_valid:
  assumes "set required_columns \<subseteq> set (columns df)"
      and "read_players (rows df) [] = Inr players"
      and "10 \<le> length players"
  shows "\<exists>i a b. i < ITERATIONS \<and> attempt_build (draws i) players = Inr (a, b) \<and>
           build_teams draws df = Inr (a, b, Fin \<bar>total' a - total' b\<bar>)"
proof -
  have "0 < ITERATIONS" by (simp add: ITERATIONS_def)
  from search_loop_from_init [OF this, of draws players]
  obtain i a b n' where "i < ITERATIONS" "attempt_build (draws i) players = Inr (a, b)"
    "search_loop ITERATIONS draws players search_init =
       Inr (Some (a, b), Fin \<bar>total' a - total' b\<bar>, n')" by blast
  with assms show ?thesis
    by (intro exI [of _ i] exI [of _ a] exI [of _ b]) (simp add: build_teams_def)
qed

text \<open>
  C1. For a sheet with the required columns whose selected rows all parse and number at
  least ten, whatever permutations the shuffles draw and whatever the roles of the
  players, the search returns two teams whose Forward and Defence collections together
  hold every eligible player exactly once.
\<close>

theorem search_places_every_player_once:
  assumes "set required_columns \<subseteq> set (columns df)"
      and "read_players (rows df) [] = Inr players"
      and "10 \<le> length players"
      and "\<forall>i xs. mset (draws i xs) = mset xs"
  shows "\<exists>a b. build_teams draws df = Inr (a, b, Fin \<bar>total' a - total' b\<bar>) \<and>
           mset (F a @ D a @ F b @ D b) = mset players"
proof -
  from build_teams_valid [OF assms(1-3), of draws] obtain i a b where
    ab: "attempt_build (draws i) players = Inr (a, b)"
    and r: "build_teams draws df = Inr (a, b, Fin \<bar>total' a - total' b\<bar>)" by blast
  from attempt_build_defined [of "draws i" players] ab
  have "mset (members a) + mset (members b) = mset (draws i players)" by simp
  with assms(4) have "mset (F a @ D a @ F b @ D b) = mset players"
    by (simp add: members_def add.assoc)
  with r show ?thesis by blast
qed

theorem search_places_every_player_once_witness:
  "build_teams (\<lambda>i xs. xs) overflow_sheet = Inr (overflow_team, overflow_team, Fin 0) \<and>
   length overflow_players = 14 \<and>
   length (F overflow_team) = 7 \<and>
   mset (F overflow_team @ D overflow_team @ F overflow_team @ D overflow_team) =
     mset overflow_players"
proof -
  have cols: "set required_columns \<subseteq> set (columns overflow_sheet)"
    by (simp add: required_columns_def overflow_sheet_def)
  have read: "read_players (rows overflow_sheet) [] = Inr overflow_players"
    by code_simp
  have len: "length overflow_players = 14"
    by (simp add: overflow_players_def overflow_ranks_def)
  then have ten: "10 \<le> length overflow_players" by simp
  have perm: "\<forall>i xs. mset ((\<lambda>(i::nat) (xs::player list). xs) i xs) = mset xs" by simp
  have run: "build_teams (\<lambda>i xs. xs) overflow_sheet =
      Inr (overflow_team, overflow_team, Fin 0)"
    by code_simp
  from search_places_every_player_once [OF cols read ten perm] run
  have "mset (F overflow_team @ D overflow_team @ F overflow_team @ D overflow_team) =
     mset overflow_players" by auto
  moreover have "length (F overflow_team) = 7" by (simp add: overflow_team_def)
  ultimately show ?thesis using run len by simp
qed

subsection \<open>Order of the enumeration\<close>

lemma options_for_cases:
  "options_for st p \<in>
     {[(TeamA, ''F'')], [(TeamB, ''F'')], [(TeamA, ''F''), (TeamB, ''F'')],
      [(TeamA, ''D'')], [(TeamB, ''D'')], [(TeamA, ''D''), (TeamB, ''D'')],
      [(TeamA, ''F''), (TeamA, ''D'')], [(TeamB, ''F''), (TeamB, ''D'')],
      [(TeamA, ''F''), (TeamB, ''D'')], [(TeamA, ''D''), (TeamB, ''F'')],
      [(TeamA, ''F''), (TeamA, ''D''), (TeamB, ''F'')],
      [(TeamA, ''F''), (TeamA, ''D''), (TeamB, ''D'')],
      [(TeamA, ''F''), (TeamB, ''F''), (TeamB, ''D'')],
      [(TeamA, ''D''), (TeamB, ''F''), (TeamB, ''D'')],
      [(TeamA, ''F''), (TeamA, ''D''), (TeamB, ''F''), (TeamB, ''D'')],
      [(TeamA, ''F''), (TeamB, ''F''), (TeamA, ''D''), (TeamB, ''D'')]}"
  by (simp add: options_for_def candidate_options_def team_options_def fallback_options_def
      Let_def)

lemma forward_offered_first:
  assumes "k < length (options_for st p)"
      and "options_for st p ! k = (tm, ''D'')"
      and "(tm, ''F'') \<in> set (options_for st p)"
  shows "(tm, ''F'') \<in> set (take k (options_for st p))"
proof -
  from assms(1) consider "k = 0" | "k = 1" | "k = 2" | "k = 3" | "4 \<le> k" by linarith
  then show ?thesis
    using options_for_cases [of st p] assms
    by cases (auto simp: take_Suc_conv_app_nth numeral_2_eq_2 numeral_3_eq_3)
qed

lemma team_a_offered_first:
  assumes "k < length (options_for st p)"
      and "fst (options_for st p ! k) = TeamB"
      and "m \<in> set (options_for st p)" and "fst m = TeamA"
  shows "\<exists>m' \<in> set (take k (options_for st p)). fst m' = TeamA"
proof -
  from assms(1) consider "k = 0" | "k = 1" | "k = 2" | "k = 3" | "4 \<le> k" by linarith
  then show ?thesis
    using options_for_cases [of st p] assms
    by cases (auto simp: take_Suc_conv_app_nth numeral_2_eq_2 numeral_3_eq_3)
qed


lemma chosen_at_first_minimum:
  assumes "choose_move st p (options_for st p) = Some m"
  shows "\<exists>k. first_minimum (\<lambda>m. projected_gap st p (fst m)) (options_for st p) k \<and>
             options_for st p ! k = m"
  using choose_move_first_minimum [OF options_for_nonempty, of st p st p] assms by auto

lemma chosen_forward_if_offered:
  assumes "choose_move st p (options_for st p) = Some (tm, pos)"
      and "(tm, ''F'') \<in> set (options_for st p)"
  shows "pos = ''F''"
proof (rule ccontr)
  assume nf: "pos \<noteq> ''F''"
  from chosen_at_first_minimum [OF assms(1)] obtain k where
    fm: "first_minimum (\<lambda>m. projected_gap st p (fst m)) (options_for st p) k"
    and k: "options_for st p ! k = (tm, pos)" by blast
  from fm have kl: "k < length (options_for st p)" by (simp add: first_minimum_def)
  then have "options_for st p ! k \<in> set (options_for st p)" by simp
  from options_for_roles [OF this] k nf have "pos = ''D''" by simp
  with forward_offered_first [OF kl _ assms(2)] k
  have "(tm, ''F'') \<in> set (take k (options_for st p))" by simp
  with fm k have "projected_gap st p tm < projected_gap st p tm"
    by (fastforce simp: first_minimum_def)
  then show False by simp
qed

lemma chosen_team_a_on_tie:
  assumes "choose_move st p (options_for st p) = Some (tm, pos)"
      and "m \<in> set (options_for st p)" and "fst m = TeamA"
      and "projected_gap st p (fst m) = projected_gap st p tm"
  shows "tm = TeamA"
proof (rule ccontr)
  assume "tm \<noteq> TeamA"
  then have b: "tm = TeamB" by (cases tm) simp_all
  from chosen_at_first_minimum [OF assms(1)] obtain k where
    fm: "first_minimum (\<lambda>m. projected_gap st p (fst m)) (options_for st p) k"
    and k: "options_for st p ! k = (tm, pos)" by blast
  from fm have kl: "k < length (options_for st p)" by (simp add: first_minimum_def)
  from team_a_offered_first [OF kl _ assms(2,3)] k b obtain m' where
    "m' \<in> set (take k (options_for st p))" and "fst m' = TeamA" by auto
  with fm k have "projected_gap st p tm < projected_gap st p TeamA"
    by (fastforce simp: first_minimum_def)
  with assms(3,4) show False by simp
qed

lemma commit_lands:
  assumes "pos = ''F'' \<or> pos = ''D''"
  shows "\<exists>st'. commit st p (tm, pos) = Inr st' \<and>
           deref st' tm = with_player (deref st tm) p pos \<and>
           deref st' (other_team tm) = deref st (other_team tm)"
proof (cases st)
  case (Pair a b)
  with assms show ?thesis
    by (cases tm) (auto simp: assign_player_def with_player_def)
qed

text \<open>
  C2. For every player the constructor places, the option it commits is a first minimum
  of the projected gap over the options it enumerated (the constrained ones, or the four
  fallback ones): no option has a smaller gap and every earlier option has a strictly
  larger one. The player is appended to that role collection of that team, whose total
  grows by the player's rank, and the other team is left as it was. Hence on a tie team A
  wins over team B, and a team's Forward slot wins over its Defence slot whenever both
  are offered.
\<close>

theorem greedy_commits_first_minimum:
  "\<exists>k tm pos st'.
     first_minimum (\<lambda>m. projected_gap st p (fst m)) (options_for st p) k \<and>
     options_for st p ! k = (tm, pos) \<and>
     (pos = ''F'' \<or> pos = ''D'') \<and>
     choose_move st p (options_for st p) = Some (tm, pos) \<and>
     place_player st p = Inr st' \<and>
     deref st' tm = with_player (deref st tm) p pos \<and>
     deref st' (other_team tm) = deref st (other_team tm) \<and>
     \<bar>total' (fst st') - total' (snd st')\<bar> = projected_gap st p tm \<and>
     (\<forall>m \<in> set (options_for st p).
        fst m = TeamA \<and> projected_gap st p (fst m) = projected_gap st p tm \<longrightarrow> tm = TeamA) \<and>
     ((tm, ''F'') \<in> set (options_for st p) \<longrightarrow> pos = ''F'')"
proof -
  from choose_move_first_minimum [OF options_for_nonempty, of st p st p] obtain k where
    fm: "first_minimum (\<lambda>m. projected_gap st p (fst m)) (options_for st p) k"
    and c: "choose_move st p (options_for st p) = Some (options_for st p ! k)" by blast
  obtain tm pos where m: "options_for st p ! k = (tm, pos)"
    by (cases "options_for st p ! k")
  from c m have c': "choose_move st p (options_for st p) = Some (tm, pos)" by simp
  from fm have "k < length (options_for st p)" by (simp add: first_minimum_def)
  then have "options_for st p ! k \<in> set (options_for st p)" by simp
  from options_for_roles [OF this] m have role: "pos = ''F'' \<or> pos = ''D''" by simp
  from commit_lands [OF role, of st p tm] obtain st' where
    cm: "commit st p (tm, pos) = Inr st'"
    and land: "deref st' tm = with_player (deref st tm) p pos"
    and rest: "deref st' (other_team tm) = deref st (other_team tm)" by blast
  from c' cm have pl: "place_player st p = Inr st'" by (simp add: place_player_def)
  have gap: "\<bar>total' (fst st') - total' (snd st')\<bar> = projected_gap st p tm"
  proof (cases st)
    case st: (Pair a b)
    obtain a' b' where st': "st' = (a', b')" by (cases st')
    show ?thesis
    proof (cases tm)
      case TeamA
      with land rest st st' show ?thesis by (auto simp: with_player_def)
    next
      case TeamB
      with land rest st st' show ?thesis by (auto simp: with_player_def)
    qed
  qed
  have tie: "\<forall>m \<in> set (options_for st p).
      fst m = TeamA \<and> projected_gap st p (fst m) = projected_gap st p tm \<longrightarrow> tm = TeamA"
    using chosen_team_a_on_tie [OF c'] by blast
  have fwd: "(tm, ''F'') \<in> set (options_for st p) \<longrightarrow> pos = ''F''"
    using chosen_forward_if_offered [OF c'] by blast
  from fm m role c' pl land rest gap tie fwd show ?thesis by blast
qed

theorem greedy_commits_first_minimum_witness:
  "options_for (six_forwards, empty_team) flex_player =
     [(TeamA, ''D''), (TeamB, ''F''), (TeamB, ''D'')] \<and>
   projected_gap (six_forwards, empty_team) flex_player TeamA = 9 \<and>
   projected_gap (six_forwards, empty_team) flex_player TeamB = 3 \<and>
   choose_move (six_forwards, empty_team) flex_player
     (options_for (six_forwards, empty_team) flex_player) = Some (TeamB, ''F'') \<and>
   place_player (six_forwards, empty_team) flex_player =
     Inr (six_forwards, \<lparr>F = [flex_player], D = [], total' = 3\<rparr>) \<and>
   options_for (empty_team, empty_team) goalie =
     [(TeamA, ''F''), (TeamA, ''D''), (TeamB, ''F''), (TeamB, ''D'')] \<and>
   projected_gap (empty_team, empty_team) goalie TeamA = 3 \<and>
   projected_gap (empty_team, empty_team) goalie TeamB = 3 \<and>
   place_player (empty_team, empty_team) goalie =
     Inr (\<lparr>F = [goalie], D = [], total' = 3\<rparr>, empty_team)"
proof -
  let ?s1 = "(six_forwards, empty_team)"
  have o1: "options_for ?s1 flex_player = [(TeamA, ''D''), (TeamB, ''F''), (TeamB, ''D'')]"
    by code_simp
  have a1: "projected_gap ?s1 flex_player TeamA = 9" by code_simp
  have b1: "projected_gap ?s1 flex_player TeamB = 3" by code_simp
  from greedy_commits_first_minimum [of ?s1 flex_player] obtain k tm pos st' where
    fm: "first_minimum (\<lambda>m. projected_gap ?s1 flex_player (fst m))
           (options_for ?s1 flex_player) k"
    and m: "options_for ?s1 flex_player ! k = (tm, pos)"
    and c: "choose_move ?s1 flex_player (options_for ?s1 flex_player) = Some (tm, pos)"
    and pl: "place_player ?s1 flex_player = Inr st'"
    and land: "deref st' tm = with_player (deref ?s1 tm) flex_player pos"
    and rest: "deref st' (other_team tm) = deref ?s1 (other_team tm)"
    and fwd: "(tm, ''F'') \<in> set (options_for ?s1 flex_player) \<longrightarrow> pos = ''F''"
    by blast
  from fm m o1 have "projected_gap ?s1 flex_player tm \<le> projected_gap ?s1 flex_player TeamB"
    by (auto simp: first_minimum_def)
  with a1 b1 have tm: "tm = TeamB" by (cases tm) simp_all
  with fwd o1 have pos: "pos = ''F''" by simp
  obtain a' b' where st': "st' = (a', b')" by (cases st')
  from land rest tm pos st' have
    "st' = (six_forwards, \<lparr>F = [flex_player], D = [], total' = 0 + rank flex_player\<rparr>)"
    by (simp add: with_player_def empty_team_def)
  moreover have "rank flex_player = 3" by (simp add: flex_player_def skater_def)
  ultimately have r1: "place_player ?s1 flex_player =
      Inr (six_forwards, \<lparr>F = [flex_player], D = [], total' = 3\<rparr>)"
    using pl by simp
  let ?s2 = "(empty_team, empty_team)"
  have o2: "options_for ?s2 goalie =
     [(TeamA, ''F''), (TeamA, ''D''), (TeamB, ''F''), (TeamB, ''D'')]"
    by code_simp
  have a2: "projected_gap ?s2 goalie TeamA = 3" by code_simp
  have b2: "projected_gap ?s2 goalie TeamB = 3" by code_simp
  from greedy_commits_first_minimum [of ?s2 goalie] obtain k2 tm2 pos2 st2 where
    pl2: "place_player ?s2 goalie = Inr st2"
    and land2: "deref st2 tm2 = with_player (deref ?s2 tm2) goalie pos2"
    and rest2: "deref st2 (other_team tm2) = deref ?s2 (other_team tm2)"
    and tie2: "\<forall>m \<in> set (options_for ?s2 goalie).
        fst m = TeamA \<and> projected_gap ?s2 goalie (fst m) = projected_gap ?s2 goalie tm2
          \<longrightarrow> tm2 = TeamA"
    and fwd2: "(tm2, ''F'') \<in> set (options_for ?s2 goalie) \<longrightarrow> pos2 = ''F''"
    by blast
  have "projected_gap ?s2 goalie tm2 = 3" using a2 b2 by (cases tm2) simp_all
  with tie2 o2 a2 have tm2: "tm2 = TeamA" by simp
  with fwd2 o2 have pos2: "pos2 = ''F''" by simp
  obtain a2' b2' where st2: "st2 = (a2', b2')" by (cases st2)
  from land2 rest2 tm2 pos2 st2 have
    "st2 = (\<lparr>F = [goalie], D = [], total' = 0 + rank goalie\<rparr>, empty_team)"
    by (simp add: with_player_def empty_team_def)
  moreover have "rank goalie = 3" by (simp add: goalie_def)
  ultimately have r2: "place_player ?s2 goalie =
      Inr (\<lparr>F = [goalie], D = [], total' = 3\<rparr>, empty_team)"
    using pl2 by simp
  from o1 a1 b1 c tm pos r1 o2 a2 b2 r2 show ?thesis by simp
qed

subsection \<open>Flex players and unexpected positions\<close>

lemma flex_candidates:
  assumes "position p \<noteq> ''F''" and "position p \<noteq> ''D''"
  shows "candidate_options st p =
     filter (\<lambda>(tm, pos). can_add (deref st tm) pos)
       [(TeamA, ''F''), (TeamA, ''D''), (TeamB, ''F''), (TeamB, ''D'')]"
  using assms by (simp add: candidate_options_def team_options_def)

lemma commit_defence_changed:
  assumes "commit st p (tm', pos') = Inr st'" and "D (deref st' tm) \<noteq> D (deref st tm)"
  shows "tm' = tm \<and> pos' = ''D'' \<and> D (deref st' tm) = D (deref st tm) @ [p]"
proof (cases st)
  case (Pair a b)
  with assms show ?thesis
    by (cases tm'; cases tm)
       (auto simp: assign_player_def split: if_splits)
qed

text \<open>
  C10, as the code has it. When the constructor places a Flex player (a position other
  than F and D) without the fallback and the player lands in a team's Defence collection,
  that team's Forward slot was not offered: its Forward collection had already reached
  its target size or, after an earlier fallback, passed it. The collection holds exactly
  FORWARDS_TARGET players whenever the team is within its targets.
\<close>

theorem flex_defence_only_when_forwards_full:
  assumes "position p \<noteq> ''F''" and "position p \<noteq> ''D''"
      and "\<not> fallback_fires st p"
      and "place_player st p = Inr st'"
      and "D (deref st' tm) \<noteq> D (deref st tm)"
  shows "choose_move st p (options_for st p) = Some (tm, ''D'') \<and>
         D (deref st' tm) = D (deref st tm) @ [p] \<and>
         \<not> can_add (deref st tm) ''F'' \<and>
         FORWARDS_TARGET \<le> length (F (deref st tm)) \<and>
         (within_targets (deref st tm) \<longrightarrow> length (F (deref st tm)) = FORWARDS_TARGET)"
proof -
  from assms(4) obtain tm' pos' where
    c: "choose_move st p (options_for st p) = Some (tm', pos')"
    and cm: "commit st p (tm', pos') = Inr st'"
    by (auto simp: place_player_def split: option.splits)
  from commit_defence_changed [OF cm assms(5)] have
    e: "tm' = tm" "pos' = ''D''" and app: "D (deref st' tm) = D (deref st tm) @ [p]"
    by simp_all
  have "\<not> can_add (deref st tm) ''F''"
  proof
    assume "can_add (deref st tm) ''F''"
    with flex_candidates [OF assms(1,2), of st]
    have "(tm, ''F'') \<in> set (candidate_options st p)" by (cases tm) simp_all
    with assms(3) have "(tm, ''F'') \<in> set (options_for st p)"
      by (simp add: options_for_def fallback_fires_def Let_def)
    from chosen_forward_if_offered [OF c [unfolded e] this] show False by simp
  qed
  moreover from this have "FORWARDS_TARGET \<le> length (F (deref st tm))"
    by (simp add: can_add_def)
  ultimately show ?thesis using c e app by (simp add: within_targets_def)
qed

theorem flex_defence_only_when_forwards_full_witness:
  "position goalie \<noteq> ''F'' \<and> position goalie \<noteq> ''D'' \<and>
   \<not> fallback_fires (six_forwards, six_forwards) goalie \<and>
   place_player (six_forwards, six_forwards) goalie =
     Inr (six_forwards\<lparr>D := [goalie], total' := 9\<rparr>, six_forwards) \<and>
   choose_move (six_forwards, six_forwards) goalie
     (options_for (six_forwards, six_forwards) goalie) = Some (TeamA, ''D'') \<and>
   length (F six_forwards) = 6"
proof -
  let ?st = "(six_forwards, six_forwards)"
  let ?st' = "(six_forwards\<lparr>D := [goalie], total' := 9\<rparr>, six_forwards)"
  have p1: "position goalie \<noteq> ''F''" and p2: "position goalie \<noteq> ''D''"
    by (simp_all add: goalie_def)
  have nf: "\<not> fallback_fires ?st goalie" by code_simp
  have pl: "place_player ?st goalie = Inr ?st'" by code_simp
  have ch: "D (deref ?st' TeamA) \<noteq> D (deref ?st TeamA)"
    by (simp add: six_forwards_def)
  have "length (F six_forwards) = 6" by (simp add: six_forwards_def)
  with flex_defence_only_when_forwards_full [OF p1 p2 nf pl ch] p1 p2 nf pl
  show ?thesis by simp
qed

text \<open>
  After fourteen Forwards each team holds seven of them, one more than the target; a Flex
  player then goes to team A's Defence collection without the fallback.
\<close>

theorem flex_defence_past_target_counterexample:
  "build_from (empty_team, empty_team) overflow_players = Inr (overflow_team, overflow_team) \<and>
   position flex_player \<noteq> ''F'' \<and> position flex_player \<noteq> ''D'' \<and>
   \<not> fallback_fires (overflow_team, overflow_team) flex_player \<and>
   place_player (overflow_team, overflow_team) flex_player =
     Inr (\<lparr>F = F overflow_team, D = [flex_player], total' = 11\<rparr>, overflow_team) \<and>
   attempt_build (\<lambda>xs. xs) (overflow_players @ [flex_player]) =
     Inr (\<lparr>F = F overflow_team, D = [flex_player], total' = 11\<rparr>, overflow_team) \<and>
   length (F overflow_team) = 7 \<and>
   FORWARDS_TARGET = 6"
  by code_simp

text \<open>
  C5, as the code has it. A player whose position is neither F nor D takes the Flex
  branch: the normal enumeration offers, team A first and Forward before Defence, every
  slot of the two teams that still has room, whatever the position string is; the
  fallback fires for such a player only when all four collections have reached their
  targets.
\<close>

theorem other_position_enumerated_as_flex:
  assumes "position p \<noteq> ''F''" and "position p \<noteq> ''D''"
  shows "candidate_options st p =
           filter (\<lambda>(tm, pos). can_add (deref st tm) pos)
             [(TeamA, ''F''), (TeamA, ''D''), (TeamB, ''F''), (TeamB, ''D'')] \<and>
         fallback_fires st p =
           (\<not> can_add (fst st) ''F'' \<and> \<not> can_add (fst st) ''D'' \<and>
            \<not> can_add (snd st) ''F'' \<and> \<not> can_add (snd st) ''D'') \<and>
         candidate_options st (p\<lparr>position := ''FLEX''\<rparr>) = candidate_options st p"
proof -
  have "candidate_options st (p\<lparr>position := ''FLEX''\<rparr>) = candidate_options st p"
    using assms by (simp add: candidate_options_def team_options_def)
  moreover have "fallback_fires st p =
           (\<not> can_add (fst st) ''F'' \<and> \<not> can_add (fst st) ''D'' \<and>
            \<not> can_add (snd st) ''F'' \<and> \<not> can_add (snd st) ''D'')"
    using assms
    by (cases st) (auto simp: fallback_fires_def candidate_options_def team_options_def)
  ultimately show ?thesis using flex_candidates [OF assms] by simp
qed

theorem other_position_enumerated_as_flex_witness:
  "position goalie \<noteq> ''F'' \<and> position goalie \<noteq> ''D'' \<and>
   candidate_options (six_forwards, empty_team) goalie =
     [(TeamA, ''D''), (TeamB, ''F''), (TeamB, ''D'')] \<and>
   fallback_fires (six_forwards, empty_team) goalie = False"
proof -
  have p1: "position goalie \<noteq> ''F''" and p2: "position goalie \<noteq> ''D''"
    by (simp_all add: goalie_def)
  have f: "filter (\<lambda>(tm, pos). can_add (deref (six_forwards, empty_team) tm) pos)
             [(TeamA, ''F''), (TeamA, ''D''), (TeamB, ''F''), (TeamB, ''D'')] =
           [(TeamA, ''D''), (TeamB, ''F''), (TeamB, ''D'')]"
    by code_simp
  have c: "can_add (snd (six_forwards, empty_team)) ''F''" by code_simp
  from other_position_enumerated_as_flex [OF p1 p2, of "(six_forwards, empty_team)"] f c p1 p2
  show ?thesis by simp
qed

theorem other_position_counterexample:
  "position goalie \<noteq> ''F'' \<and> position goalie \<noteq> ''D'' \<and> position goalie \<noteq> ''FLEX'' \<and>
   candidate_options (empty_team, empty_team) goalie =
     [(TeamA, ''F''), (TeamA, ''D''), (TeamB, ''F''), (TeamB, ''D'')] \<and>
   \<not> fallback_fires (empty_team, empty_team) goalie \<and>
   place_player (empty_team, empty_team) goalie =
     Inr (\<lparr>F = [goalie], D = [], total' = 3\<rparr>, empty_team)"
  by code_simp

subsection \<open>Capacity targets\<close>

lemma candidate_has_room:
  "(tm, pos) \<in> set (candidate_options st p) \<Longrightarrow> can_add (deref st tm) pos"
  by (auto simp: candidate_options_def team_options_def split: if_splits)

lemma commit_within_targets:
  assumes "commit st p (tm, pos) = Inr st'"
      and "can_add (deref st tm) pos"
      and "within_targets (fst st)" and "within_targets (snd st)"
  shows "within_targets (fst st') \<and> within_targets (snd st')"
proof (cases st)
  case (Pair a b)
  with assms show ?thesis
    by (cases tm)
       (auto simp: assign_player_def can_add_def within_targets_def split: if_splits)
qed

lemma place_player_within_targets:
  assumes "place_player st p = Inr st'"
      and "\<not> fallback_fires st p"
      and "within_targets (fst st)" and "within_targets (snd st)"
  shows "within_targets (fst st') \<and> within_targets (snd st')"
proof -
  from assms(1) obtain tm pos where
    c: "choose_move st p (options_for st p) = Some (tm, pos)"
    and cm: "commit st p (tm, pos) = Inr st'"
    by (auto simp: place_player_def split: option.splits)
  from chosen_at_first_minimum [OF c] obtain k where
    "k < length (options_for st p)" and "options_for st p ! k = (tm, pos)"
    by (auto simp: first_minimum_def)
  then have "(tm, pos) \<in> set (options_for st p)" by (metis nth_mem)
  with assms(2) have "(tm, pos) \<in> set (candidate_options st p)"
    by (simp add: options_for_def fallback_fires_def Let_def)
  from commit_within_targets [OF cm candidate_has_room [OF this] assms(3,4)]
  show ?thesis .
qed

lemma build_from_within_targets:
  assumes "fallback_free st ps"
      and "within_targets (fst st)" and "within_targets (snd st)"
  shows "\<exists>st'. build_from st (take k ps) = Inr st' \<and>
           within_targets (fst st') \<and> within_targets (snd st')"
  using assms
proof (induction ps arbitrary: st k)
  case Nil
  then show ?case by simp
next
  case (Cons p ps)
  show ?case
  proof (cases k)
    case 0
    with Cons.prems show ?thesis by simp
  next
    case (Suc j)
    from Cons.prems(1) obtain st1 where
      nf: "\<not> fallback_fires st p" and s1: "place_player st p = Inr st1"
      and ff: "fallback_free st1 ps"
      by (auto split: sum.splits)
    from place_player_within_targets [OF s1 nf Cons.prems(2,3)]
    have w: "within_targets (fst st1)" "within_targets (snd st1)" by simp_all
    from Cons.IH [OF ff w, of j] s1 Suc show ?thesis by simp
  qed
qed

text \<open>
  C3. In a run of the constructor during which the fallback never fires, after every
  assignment (after each prefix of the player order) both teams hold at most
  FORWARDS_TARGET = 6 Forwards and at most DEFENCE_TARGET = 4 Defence players, and so do
  the two teams the attempt returns.
\<close>

theorem targets_hold_without_fallback:
  assumes "fallback_free (empty_team, empty_team) (draw players)"
  shows "(\<forall>k \<le> length (draw players). \<exists>a b.
            build_from (empty_team, empty_team) (take k (draw players)) = Inr (a, b) \<and>
            length (F a) \<le> 6 \<and> length (D a) \<le> 4 \<and>
            length (F b) \<le> 6 \<and> length (D b) \<le> 4) \<and>
         (\<exists>a b. attempt_build draw players = Inr (a, b) \<and>
            length (F a) \<le> FORWARDS_TARGET \<and> length (D a) \<le> DEFENCE_TARGET \<and>
            length (F b) \<le> FORWARDS_TARGET \<and> length (D b) \<le> DEFENCE_TARGET) \<and>
         FORWARDS_TARGET = 6 \<and> DEFENCE_TARGET = 4"
proof -
  have w0: "within_targets (fst (empty_team, empty_team))"
    "within_targets (snd (empty_team, empty_team))"
    by (simp_all add: within_targets_def empty_team_def)
  have step: "\<exists>a b. build_from (empty_team, empty_team) (take k (draw players)) = Inr (a, b) \<and>
      length (F a) \<le> 6 \<and> length (D a) \<le> 4 \<and> length (F b) \<le> 6 \<and> length (D b) \<le> 4" for k
  proof -
    from build_from_within_targets [OF assms w0, of k] obtain st' where
      r: "build_from (empty_team, empty_team) (take k (draw players)) = Inr st'"
      and w: "within_targets (fst st')" "within_targets (snd st')" by blast
    obtain a b where "st' = (a, b)" by (cases st')
    with r w show ?thesis
      by (simp add: within_targets_def FORWARDS_TARGET_def DEFENCE_TARGET_def)
  qed
  from step [of "length (draw players)"]
  have "\<exists>a b. attempt_build draw players = Inr (a, b) \<and>
            length (F a) \<le> FORWARDS_TARGET \<and> length (D a) \<le> DEFENCE_TARGET \<and>
            length (F b) \<le> FORWARDS_TARGET \<and> length (D b) \<le> DEFENCE_TARGET"
    by (simp add: attempt_build_def FORWARDS_TARGET_def DEFENCE_TARGET_def)
  with step show ?thesis by (simp add: FORWARDS_TARGET_def DEFENCE_TARGET_def)
qed

theorem targets_hold_without_fallback_witness:
  "fallback_free (empty_team, empty_team) (rev mixed_players) \<and>
   length (rev mixed_players) = 10 \<and>
   (\<exists>a b. attempt_build rev mixed_players = Inr (a, b) \<and>
      length (F a) \<le> FORWARDS_TARGET \<and> length (D a) \<le> DEFENCE_TARGET \<and>
      length (F b) \<le> FORWARDS_TARGET \<and> length (D b) \<le> DEFENCE_TARGET)"
proof -
  have ff: "fallback_free (empty_team, empty_team) (rev mixed_players)" by code_simp
  have len: "length (rev mixed_players) = 10" by (simp add: mixed_players_def)
  from targets_hold_without_fallback [of rev mixed_players, OF ff] ff len
  show ?thesis by blast
qed

subsection \<open>Passes of the search loop\<close>

lemma attempt_diff_Some:
  "attempt_build draw ps = Inr (a, b) \<Longrightarrow> attempt_diff draw ps = Some \<bar>total' a - total' b\<bar>"
  by (simp add: attempt_diff_def)

lemma search_loop_Suc:
  assumes "bd \<noteq> Fin 0"
      and "search_loop k draws ps (best, bd, n) = Inr (b1, d1, n1)"
  shows "search_loop (Suc k) draws ps (best, bd, n) =
           (if d1 = Fin 0 then Inr (b1, d1, n1)
            else case attempt_build (draws (n + k)) ps of
                   Inl e \<Rightarrow> Inl e
                 | Inr ab \<Rightarrow> Inr (record_attempt (b1, d1, n + k) ab))"
  using assms
proof (induction k arbitrary: best bd n)
  case 0
  then show ?case by (auto simp: Let_def split: sum.splits)
next
  case (Suc k)
  from attempt_build_defined [of "draws n" ps] obtain a b where
    ab: "attempt_build (draws n) ps = Inr (a, b)" by blast
  obtain best' bd' where st': "record_attempt (best, bd, n) (a, b) = (best', bd', Suc n)"
    by (cases "less_bound \<bar>total' a - total' b\<bar> bd") (simp_all add: Let_def)
  have unfold: "search_loop (Suc j) draws ps (best, bd, n) =
      (if bd' = Fin 0 then Inr (best', bd', Suc n)
       else search_loop j draws ps (best', bd', Suc n))" for j
    using ab st' by simp
  show ?case
  proof (cases "bd' = Fin 0")
    case True
    with unfold [of k] Suc.prems(2) have "(b1, d1, n1) = (best', bd', Suc n)" by simp
    with True unfold [of "Suc k"] show ?thesis by (simp del: search_loop.simps)
  next
    case False
    with unfold [of k] Suc.prems(2)
    have r: "search_loop k draws ps (best', bd', Suc n) = Inr (b1, d1, n1)" by simp
    have e: "Suc n + k = n + Suc k" by simp
    from Suc.IH [OF False r, unfolded e] False unfold [of "Suc k"] show ?thesis
      by (simp only: if_False)
  qed
qed

text \<open>
  C6. Let the driver's state after \<open>k\<close> passes of the loop be \<open>(b1, d1)\<close> and after
  \<open>k + 1\<close> passes \<open>(b2, d2)\<close>. The best partition is replaced exactly when the attempt of
  pass \<open>k\<close> has a diff strictly smaller than \<open>d1\<close>, and then \<open>d2\<close> is that diff; otherwise
  (on a tie, on a larger diff, or once the loop has stopped) best and best diff are kept.
  So the best diff never increases from one pass to the next.
\<close>

theorem best_replaced_only_by_smaller_diff:
  "\<exists>b1 d1 n1 b2 d2 n2 a b.
     search_loop k draws ps search_init = Inr (b1, d1, n1) \<and>
     search_loop (Suc k) draws ps search_init = Inr (b2, d2, n2) \<and>
     attempt_build (draws k) ps = Inr (a, b) \<and>
     (b2, d2) =
       (if less_bound \<bar>total' a - total' b\<bar> d1
        then (Some (a, b), Fin \<bar>total' a - total' b\<bar>)
        else (b1, d1)) \<and>
     (d2 = d1 \<or> (\<exists>x. d2 = Fin x \<and> less_bound x d1))"
proof -
  from search_loop_result [of k draws ps None Inf 0] obtain b1 d1 n1 where
    r1: "search_loop k draws ps search_init = Inr (b1, d1, n1)"
    by (auto simp: search_init_def)
  from attempt_build_defined [of "draws k" ps] obtain a b where
    ab: "attempt_build (draws k) ps = Inr (a, b)" by blast
  let ?d = "\<bar>total' a - total' b\<bar>"
  have "Inf \<noteq> Fin 0" by simp
  from search_loop_Suc [OF this r1 [unfolded search_init_def]] ab
  have r2: "search_loop (Suc k) draws ps search_init =
      (if d1 = Fin 0 then Inr (b1, d1, n1) else Inr (record_attempt (b1, d1, k) (a, b)))"
    by (simp add: search_init_def)
  show ?thesis
  proof (cases "d1 = Fin 0")
    case True
    then have "\<not> less_bound ?d d1" by simp
    with True r1 r2 ab show ?thesis by simp
  next
    case False
    show ?thesis
    proof (cases "less_bound ?d d1")
      case True
      with False r2 have "search_loop (Suc k) draws ps search_init =
          Inr (Some (a, b), Fin ?d, Suc k)" by (simp add: Let_def)
      with r1 ab True show ?thesis by simp
    next
      case nl: False
      with False r2 have "search_loop (Suc k) draws ps search_init = Inr (b1, d1, Suc k)"
        by (simp add: Let_def)
      with r1 ab nl show ?thesis by simp
    qed
  qed
qed

theorem best_replaced_only_by_smaller_diff_witness:
  "attempt_diff (\<lambda>xs. xs) mixed_players = Some 1 \<and>
   attempt_diff rev mixed_players = Some 3 \<and>
   (\<exists>b1 n1 n2.
      search_loop (Suc 0) (\<lambda>i. if i = 0 then (\<lambda>xs. xs) else rev) mixed_players search_init =
        Inr (b1, Fin 1, n1) \<and>
      search_loop (Suc (Suc 0)) (\<lambda>i. if i = 0 then (\<lambda>xs. xs) else rev) mixed_players
        search_init = Inr (b1, Fin 1, n2))"
proof -
  let ?draws = "\<lambda>i::nat. if i = 0 then (\<lambda>xs::player list. xs) else rev"
  have e0: "attempt_diff (\<lambda>xs. xs) mixed_players = Some 1" by code_simp
  have e1: "attempt_diff rev mixed_players = Some 3" by code_simp
  have s1: "map_sum id (\<lambda>s. fst (snd s))
      (search_loop (Suc 0) ?draws mixed_players search_init) = Inr (Fin 1)"
    by code_simp
  from best_replaced_only_by_smaller_diff [of "Suc 0" ?draws mixed_players]
  obtain b1 d1 n1 b2 d2 n2 a b where
    r1: "search_loop (Suc 0) ?draws mixed_players search_init = Inr (b1, d1, n1)"
    and r2: "search_loop (Suc (Suc 0)) ?draws mixed_players search_init = Inr (b2, d2, n2)"
    and ab: "attempt_build (?draws (Suc 0)) mixed_players = Inr (a, b)"
    and c: "(b2, d2) =
       (if less_bound \<bar>total' a - total' b\<bar> d1
        then (Some (a, b), Fin \<bar>total' a - total' b\<bar>)
        else (b1, d1))"
    by blast
  from s1 r1 have d1: "d1 = Fin 1" by simp
  from ab e1 have "\<bar>total' a - total' b\<bar> = 3" by (simp add: attempt_diff_def)
  with c d1 have "b2 = b1" "d2 = Fin 1" by simp_all
  with r1 r2 d1 e0 e1 show ?thesis by blast
qed

lemma search_loop_first_zero:
  assumes "n \<le> j" and "j < n + k"
      and "attempt_build (draws j) ps = Inr (a, b)" and "\<bar>total' a - total' b\<bar> = 0"
      and "\<forall>i. n \<le> i \<and> i < j \<longrightarrow> attempt_diff (draws i) ps \<noteq> Some 0"
      and "less_bound 0 bd"
  shows "search_loop k draws ps (best, bd, n) = Inr (Some (a, b), Fin 0, Suc j)"
  using assms
proof (induction k arbitrary: best bd n)
  case 0
  then show ?case by simp
next
  case (Suc k)
  show ?case
  proof (cases "n = j")
    case True
    with Suc.prems(3,4,6) show ?thesis by (simp add: Let_def)
  next
    case False
    with Suc.prems(1) have lt: "n < j" by simp
    from attempt_build_defined [of "draws n" ps] obtain a' b' where
      ab: "attempt_build (draws n) ps = Inr (a', b')" by blast
    let ?d = "\<bar>total' a' - total' b'\<bar>"
    from Suc.prems(5) lt attempt_diff_Some [OF ab] have nz: "?d \<noteq> 0" by auto
    then have pos: "0 < ?d" by simp
    have later: "\<forall>i. Suc n \<le> i \<and> i < j \<longrightarrow> attempt_diff (draws i) ps \<noteq> Some 0"
      using Suc.prems(5) by simp
    from lt have b1: "Suc n \<le> j" by simp
    from Suc.prems(2) have b2: "j < Suc n + k" by simp
    show ?thesis
    proof (cases "less_bound ?d bd")
      case True
      have "less_bound 0 (Fin ?d)" using pos by simp
      from Suc.IH [OF b1 b2 Suc.prems(3,4) later this, of "Some (a', b')"] True ab nz
      show ?thesis by (simp add: Let_def)
    next
      case nl: False
      from Suc.prems(6) have "bd \<noteq> Fin 0" by auto
      with Suc.IH [OF b1 b2 Suc.prems(3,4) later Suc.prems(6), of best] nl ab
      show ?thesis by (simp add: Let_def)
    qed
  qed
qed

text \<open>
  C8. If pass \<open>j\<close> of the loop is the first whose attempt has diff 0, the loop returns
  the partition of that attempt with best diff 0 after exactly \<open>j + 1\<close> attempts: it
  runs no attempt after it, and what the later shuffles would have drawn has no effect
  on the result.
\<close>

theorem loop_stops_at_first_zero:
  assumes "j < k"
      and "attempt_diff (draws j) ps = Some 0"
      and "\<forall>i < j. attempt_diff (draws i) ps \<noteq> Some 0"
  shows "\<exists>a b. attempt_build (draws j) ps = Inr (a, b) \<and>
           search_loop k draws ps search_init = Inr (Some (a, b), Fin 0, Suc j) \<and>
           (\<forall>draws'. (\<forall>i \<le> j. draws' i = draws i) \<longrightarrow>
              search_loop k draws' ps search_init = Inr (Some (a, b), Fin 0, Suc j))"
proof -
  from attempt_build_defined [of "draws j" ps] obtain a b where
    ab: "attempt_build (draws j) ps = Inr (a, b)" by blast
  with assms(2) have z: "\<bar>total' a - total' b\<bar> = 0" by (simp add: attempt_diff_def)
  have run: "search_loop k ds ps search_init = Inr (Some (a, b), Fin 0, Suc j)"
    if same: "\<forall>i \<le> j. ds i = draws i" for ds
  proof -
    from same ab have ab': "attempt_build (ds j) ps = Inr (a, b)" by simp
    from same assms(3) have
      nz: "\<forall>i. 0 \<le> i \<and> i < j \<longrightarrow> attempt_diff (ds i) ps \<noteq> Some 0" by simp
    from assms(1) have "j < 0 + k" by simp
    from search_loop_first_zero [OF _ this ab' z nz, where best = None and bd = Inf]
    show ?thesis
      by (simp add: search_init_def)
  qed
  from run [of draws] have "search_loop k draws ps search_init =
      Inr (Some (a, b), Fin 0, Suc j)" by simp
  with ab run show ?thesis by blast
qed

theorem loop_stops_at_first_zero_witness:
  "attempt_diff (rotate 13) overflow_players = Some 2 \<and>
   attempt_diff (rotate 12) overflow_players = Some 0 \<and>
   (\<exists>a b. search_loop ITERATIONS (\<lambda>i. rotate (13 - i)) overflow_players search_init =
      Inr (Some (a, b), Fin 0, 2))"
proof -
  have e0: "attempt_diff (rotate 13) overflow_players = Some 2" by code_simp
  have e1: "attempt_diff (rotate 12) overflow_players = Some 0" by code_simp
  have j: "Suc 0 < ITERATIONS" by (simp add: ITERATIONS_def)
  have z: "attempt_diff (rotate (13 - Suc 0)) overflow_players = Some 0"
    using e1 by simp
  have nz: "\<forall>i < Suc 0. attempt_diff (rotate (13 - i)) overflow_players \<noteq> Some 0"
    using e0 by simp
  from loop_stops_at_first_zero
    [of "Suc 0" ITERATIONS "\<lambda>i. rotate (13 - i)" overflow_players, OF j z nz]
  have "\<exists>a b. search_loop ITERATIONS (\<lambda>i. rotate (13 - i)) overflow_players search_init =
      Inr (Some (a, b), Fin 0, 2)"
    by (auto simp: numeral_2_eq_2)
  with e0 e1 show ?thesis by simp
qed

subsection \<open>Too few eligible players\<close>

text \<open>
  C7. When fewer than ten rows of the sheet are selected, the search ends in an error and
  returns no teams; the error does not depend on any shuffle, since no attempt is made;
  and when the sheet has the required columns and its selected rows parse, the error is
  the ValueError "Not enough selected players".
\<close>

theorem too_few_players_is_an_error:
  assumes "length (filter (\<lambda>r. is_selected (Selected r)) (rows df)) < 10"
  shows "(\<exists>e. build_teams draws df = Inl e) \<and>
         build_teams draws' df = build_teams draws df \<and>
         (set required_columns \<subseteq> set (columns df) \<and> read_players (rows df) [] = Inr ps
            \<longrightarrow> build_teams draws df = Inl (ValueError ''Not enough selected players''))"
proof -
  have short: "length qs < 10" if "read_players (rows df) [] = Inr qs" for qs
    using read_players_length [OF that] assms by simp
  have "\<exists>e. build_teams ds df = Inl e \<and> build_teams draws df = Inl e" for ds
    using short by (auto simp: build_teams_def split: sum.splits)
  then have "(\<exists>e. build_teams draws df = Inl e) \<and>
         build_teams draws' df = build_teams draws df"
    by metis
  moreover have "set required_columns \<subseteq> set (columns df) \<and>
      read_players (rows df) [] = Inr ps
        \<longrightarrow> build_teams draws df = Inl (ValueError ''Not enough selected players'')"
    using short by (auto simp: build_teams_def)
  ultimately show ?thesis by blast
qed

theorem too_few_players_is_an_error_witness:
  "length (filter (\<lambda>r. is_selected (Selected r)) (rows short_sheet)) = 3 \<and>
   set required_columns \<subseteq> set (columns short_sheet) \<and>
   read_players (rows short_sheet) [] =
     Inr [skater ''F'' 3, skater ''D'' 1, skater ''FLEX'' 4] \<and>
   build_teams (\<lambda>i. rev) short_sheet = Inl (ValueError ''Not enough selected players'')"
proof -
  have n: "length (filter (\<lambda>r. is_selected (Selected r)) (rows short_sheet)) = 3"
    by code_simp
  then have lt: "length (filter (\<lambda>r. is_selected (Selected r)) (rows short_sheet)) < 10"
    by simp
  have cols: "set required_columns \<subseteq> set (columns short_sheet)"
    by (simp add: required_columns_def short_sheet_def)
  have read: "read_players (rows short_sheet) [] =
      Inr [skater ''F'' 3, skater ''D'' 1, skater ''FLEX'' 4]"
    by code_simp
  from too_few_players_is_an_error
    [OF lt, where draws = "\<lambda>i. rev"
       and ps = "[skater ''F'' 3, skater ''D'' 1, skater ''FLEX'' 4]"] cols read
  have "build_teams (\<lambda>i. rev) short_sheet = Inl (ValueError ''Not enough selected players'')"
    by blast
  with n cols read show ?thesis by simp
qed

subsection \<open>Eligibility\<close>

lemma of_char_upper_char:
  "(of_char (upper_char c) :: nat) =
     (if 97 \<le> (of_char c :: nat) \<and> (of_char c :: nat) \<le> 122 then of_char c - 32 else of_char c)"
  by (auto simp: upper_char_def Let_def)

lemma of_char_lower_char:
  "(of_char (lower_char c) :: nat) =
     (if 65 \<le> (of_char c :: nat) \<and> (of_char c :: nat) \<le> 90 then of_char c + 32 else of_char c)"
  by (auto simp: lower_char_def Let_def)

lemma lower_upper_char: "lower_char (upper_char c) = lower_char c"
proof (rule of_char_eqI [where 'a = nat])
  show "(of_char (lower_char (upper_char c)) :: nat) = of_char (lower_char c)"
    by (auto simp: of_char_lower_char of_char_upper_char)
qed

lemma upper_lower_char: "upper_char (lower_char c) = upper_char c"
proof (rule of_char_eqI [where 'a = nat])
  show "(of_char (upper_char (lower_char c)) :: nat) = of_char (upper_char c)"
    by (auto simp: of_char_lower_char of_char_upper_char)
qed

lemma upper_eq_iff_same_ignoring_case:
  assumes "upper w = w"
  shows "upper s = w \<longleftrightarrow> same_ignoring_case s w"
proof
  assume "upper s = w"
  then have "map lower_char (map upper_char s) = map lower_char w" by (simp add: upper_def)
  then show "same_ignoring_case s w"
    by (simp add: same_ignoring_case_def lower_upper_char comp_def)
next
  assume "same_ignoring_case s w"
  then have "map upper_char (map lower_char s) = map upper_char (map lower_char w)"
    by (simp add: same_ignoring_case_def)
  then have "upper s = upper w" by (simp add: upper_def upper_lower_char comp_def)
  with assms show "upper s = w" by simp
qed

lemma is_selected_truthy: "is_selected v = truthy v"
proof (cases "v = Missing")
  case True
  have "\<not> truthy Missing" by code_simp
  with True show ?thesis by (simp add: is_selected_def isna_def)
next
  case False
  have u: "upper ''TRUE'' = ''TRUE''" "upper ''1'' = ''1''" "upper ''YES'' = ''YES''"
    "upper ''Y'' = ''Y''" by code_simp+
  from False show ?thesis
    by (auto simp: is_selected_def isna_def truthy_def
        upper_eq_iff_same_ignoring_case [OF u(1), symmetric]
        upper_eq_iff_same_ignoring_case [OF u(2), symmetric]
        upper_eq_iff_same_ignoring_case [OF u(3), symmetric]
        upper_eq_iff_same_ignoring_case [OF u(4), symmetric])
qed


lemma digit_char_in: "d < 10 \<Longrightarrow> digit_char d \<in> set ''0123456789''"
proof -
  assume "d < 10"
  then have "d < length ''0123456789''" by simp
  then show ?thesis unfolding digit_char_def by (rule nth_mem)
qed

lemma str_nat_digits: "set (str_nat n) \<subseteq> set ''0123456789''"
proof (induction n rule: str_nat.induct)
  case (1 n)
  show ?case
  proof (cases "n < 10")
    case True
    from digit_char_in [OF True] True show ?thesis
      by (subst str_nat.simps) simp
  next
    case False
    have "n mod 10 < 10" by simp
    from digit_char_in [OF this] "1.IH" [OF False] False show ?thesis
      by (subst str_nat.simps) simp
  qed
qed

lemma str_nat_nonempty: "str_nat n \<noteq> []"
  by (subst str_nat.simps) simp

lemma str_nat_one: "str_nat n = ''1'' \<longleftrightarrow> n = 1"
proof
  assume a: "str_nat n = ''1''"
  show "n = 1"
  proof (cases "n < 10")
    case True
    with a have d: "digit_char n = CHR ''1''" by (subst (asm) str_nat.simps) simp
    from True have "n \<in> {..<10}" by simp
    with d show ?thesis
      by (auto simp: lessThan_nat_numeral lessThan_Suc digit_char_def)
  next
    case False
    with a have "str_nat (n div 10) @ [digit_char (n mod 10)] = ''1''"
      by (subst (asm) str_nat.simps) simp
    then have "str_nat (n div 10) = []" by (simp add: append_eq_Cons_conv)
    with str_nat_nonempty show ?thesis by blast
  qed
next
  assume "n = 1"
  then show "str_nat n = ''1''" by (subst str_nat.simps) (simp add: digit_char_def)
qed

lemma str_int_one: "str_int i = ''1'' \<longleftrightarrow> i = 1"
proof (cases "i < 0")
  case True
  then show ?thesis by (simp add: str_int_def)
next
  case False
  then have "str_int i = str_nat (nat i)" by (simp add: str_int_def)
  with str_nat_one [of "nat i"] False show ?thesis by auto
qed

lemma str_int_chars: "set (str_int i) \<subseteq> set ''-0123456789''"
proof (cases "i < 0")
  case True
  have "set ''0123456789'' \<subseteq> set ''-0123456789''" by (simp add: subset_insertI2)
  with str_nat_digits [of "nat (- i)"] have "set (str_nat (nat (- i))) \<subseteq> set ''-0123456789''"
    by (rule subset_trans)
  with True show ?thesis by (simp add: str_int_def)
next
  case False
  have "set ''0123456789'' \<subseteq> set ''-0123456789''" by (simp add: subset_insertI2)
  with str_nat_digits [of "nat i"] have "set (str_nat (nat i)) \<subseteq> set ''-0123456789''"
    by (rule subset_trans)
  with False show ?thesis by (simp add: str_int_def)
qed

lemma dropWhile_none: "\<forall>c \<in> set s. \<not> P c \<Longrightarrow> dropWhile P s = s"
  by (cases s) simp_all

lemma strip_plain:
  assumes "set s \<subseteq> set ''-0123456789''"
  shows "strip s = s"
proof -
  have "\<not> is_space c" if "c \<in> set ''-0123456789''" for c
    using that by (auto simp: is_space_def)
  with assms have ns: "\<forall>c \<in> set s. \<not> is_space c" by blast
  then have "\<forall>c \<in> set (rev s). \<not> is_space c" by simp
  with ns show ?thesis by (simp add: strip_def dropWhile_none)
qed

lemma upper_plain:
  assumes "set s \<subseteq> set ''-0123456789''"
  shows "upper s = s"
proof -
  have "upper_char c = c" if "c \<in> set ''-0123456789''" for c
    using that by (auto simp: upper_char_def)
  with assms have "\<forall>c \<in> set s. upper_char c = c" by blast
  then show ?thesis unfolding upper_def by (simp add: map_idI)
qed

lemma plain_truthy_word:
  assumes "set s \<subseteq> set ''-0123456789''"
      and "s \<in> set [''TRUE'', ''1'', ''YES'', ''Y'']"
  shows "s = ''1''"
  using assms by auto

lemma is_selected_int: "is_selected (IntV i) \<longleftrightarrow> i = 1"
proof -
  have "upper (strip (str_int i)) = str_int i"
    using str_int_chars [of i] by (simp add: strip_plain upper_plain)
  then have "is_selected (IntV i) \<longleftrightarrow> str_int i \<in> set [''TRUE'', ''1'', ''YES'', ''Y'']"
    by (simp add: is_selected_def isna_def)
  also have "\<dots> \<longleftrightarrow> str_int i = ''1''"
    using plain_truthy_word [OF str_int_chars [of i]] by auto
  finally show ?thesis by (simp add: str_int_one)
qed

lemma is_selected_bool: "is_selected (BoolV b) \<longleftrightarrow> b"
proof (cases b)
  case True
  have "is_selected (BoolV True)" by code_simp
  with True show ?thesis by simp
next
  case False
  have "\<not> is_selected (BoolV False)" by code_simp
  with False show ?thesis by simp
qed

lemma is_selected_blank:
  assumes "\<forall>c \<in> set s. is_space c"
  shows "\<not> is_selected (StrV s)"
proof -
  from assms have d: "dropWhile is_space s = []" by (simp add: dropWhile_eq_Nil_conv)
  have "strip s = []" unfolding strip_def d by simp
  then show ?thesis by (simp add: is_selected_def isna_def upper_def)
qed

text \<open>
  C9. The eligibility predicate is true for exactly the values whose string form, once
  trimmed and compared without regard to case, is one of TRUE, 1, YES, Y. In particular
  it is false for a missing value and for blank text, true for the boolean true and the
  integer 1, and false for the boolean false and every other integer.
\<close>

theorem is_selected_iff_truthy:
  "is_selected v = truthy v \<and>
   \<not> is_selected Missing \<and>
   ((\<forall>c \<in> set s. is_space c) \<longrightarrow> \<not> is_selected (StrV s)) \<and>
   is_selected (BoolV b) = b \<and>
   is_selected (IntV i) = (i = 1)"
proof -
  have "\<not> is_selected Missing" by (simp add: is_selected_def isna_def)
  with is_selected_truthy [of v] is_selected_blank [of s] is_selected_bool [of b]
    is_selected_int [of i]
  show ?thesis by blast
qed

theorem is_selected_iff_truthy_witness:
  "is_selected (StrV ''  yEs '') \<and> truthy (StrV ''  yEs '') \<and>
   \<not> is_selected (StrV ''yes please'') \<and>
   \<not> is_selected (StrV ''   '') \<and>
   is_selected (IntV 1) \<and> \<not> is_selected (IntV 10)"
proof -
  have t: "truthy (StrV ''  yEs '')" by code_simp
  have n: "\<not> truthy (StrV ''yes please'')" by code_simp
  have b: "\<forall>c \<in> set ''   ''. is_space c" by code_simp
  have one: "(1::int) = 1" and ten: "(10::int) \<noteq> 1" by simp_all
  from is_selected_iff_truthy [of "StrV ''  yEs ''" "''   ''" True 1] t b one
  have p1: "is_selected (StrV ''  yEs '')" "\<not> is_selected (StrV ''   '')"
    "is_selected (IntV 1)" by blast+
  from is_selected_iff_truthy [of "StrV ''yes please''" "''   ''" True 10] n ten
  have p2: "\<not> is_selected (StrV ''yes please'')" "\<not> is_selected (IntV 10)" by blast+
  from p1 p2 t show ?thesis by blast
qed

end
